theory Spec2Isabelle
  imports Main "HOL-Library.Word"
begin

section \<open>Stream elements and flits\<close>

text \<open>
  \<^verbatim>\<open>typedef uint64_t Element;\<close> An element is an unsigned 64-bit integer: addition
  wraps around modulo \<open>2 ^ 64\<close>.
\<close>

type_synonym Element = "64 word"

definition sizeof_Element :: nat where
  "sizeof_Element = 8"

text \<open>
  \<^verbatim>\<open>#define STRM_WIDTH ((int)(64 / sizeof(Element)))\<close> A flit is 64 bytes wide, so the
  program as configured moves 8 elements per flit. The kernels below take the lane count
  as their first argument \<open>W\<close>; the program instantiates it with \<open>STRM_WIDTH\<close>.
\<close>

definition STRM_WIDTH :: nat where
  "STRM_WIDTH = 64 div sizeof_Element"

text \<open>\<^verbatim>\<open>typedef struct { Element element[STRM_WIDTH]; } Flit;\<close>\<close>

record Flit =
  element :: "Element list"

text \<open>
  \<^verbatim>\<open>Flit oflit;\<close> declares the output flit of one iteration: an array of \<open>W\<close> lanes
  whose content is overwritten lane by lane before the flit is written to a pipe. The
  model starts it with zeros; lemma \<open>tick_any_oflit\<close> shows that the content it starts
  with does not reach the result.
\<close>

definition fresh_flit :: "nat \<Rightarrow> Flit" where
  "fresh_flit W = \<lparr>element = replicate W 0\<rparr>"

section \<open>The kernels, one loop iteration at a time\<close>

subsection \<open>prefixSumSimple\<close>

text \<open>
  The body of the unrolled \<^verbatim>\<open>for\<close> loop at lane \<open>i\<close>:
  \<^verbatim>\<open>prefixSum += iflit.element[i]; oflit.element[i] = prefixSum;\<close>
\<close>

definition prefixSumSimple_lane :: "Flit \<Rightarrow> nat \<Rightarrow> Element \<times> Flit \<Rightarrow> Element \<times> Flit" where
  "prefixSumSimple_lane iflit i st =
     (case st of (prefixSum, oflit) \<Rightarrow>
        let prefixSum' = prefixSum + element iflit ! i
        in (prefixSum', oflit\<lparr>element := (element oflit)[i := prefixSum']\<rparr>))"

text \<open>
  One iteration of the \<^verbatim>\<open>while (1)\<close> loop between the read of \<open>iflit\<close> and the write
  of \<open>oflit\<close>: the lanes \<open>0 .. W - 1\<close> in index order. The result is the new value of
  the architectural state \<open>prefixSum\<close> and the flit to write.
\<close>

definition prefixSumSimple_tick :: "nat \<Rightarrow> Element \<Rightarrow> Flit \<Rightarrow> Element \<times> Flit" where
  "prefixSumSimple_tick W prefixSum iflit =
     fold (prefixSumSimple_lane iflit) [0..<W] (prefixSum, fresh_flit W)"

text \<open>
  The kernel never returns. On the finite content of its input pipe it runs one iteration
  per flit and then waits in \<^verbatim>\<open>TInPipe::read()\<close>; the model returns the value of
  \<open>prefixSum\<close> at that point and the flits written to the output pipe, in order.
\<close>

fun prefixSumSimple_loop :: "nat \<Rightarrow> Element \<Rightarrow> Flit list \<Rightarrow> Element \<times> Flit list" where
  "prefixSumSimple_loop W prefixSum [] = (prefixSum, [])"
| "prefixSumSimple_loop W prefixSum (iflit # inPipe) =
     (case prefixSumSimple_tick W prefixSum iflit of (prefixSum', oflit) \<Rightarrow>
        case prefixSumSimple_loop W prefixSum' inPipe of (final, outPipe) \<Rightarrow>
          (final, oflit # outPipe))"

text \<open>\<^verbatim>\<open>Element prefixSum = 0;\<close> followed by the loop.\<close>

definition prefixSumSimple :: "nat \<Rightarrow> Flit list \<Rightarrow> Flit list" where
  "prefixSumSimple W inPipe = snd (prefixSumSimple_loop W 0 inPipe)"

definition prefixSumSimple_state :: "nat \<Rightarrow> Flit list \<Rightarrow> Element" where
  "prefixSumSimple_state W inPipe = fst (prefixSumSimple_loop W 0 inPipe)"

subsection \<open>prefixSumA\<close>

text \<open>
  \<^verbatim>\<open>Element partialSum = 0; for (i ...) partialSum += iflit.element[i];\<close>
  The variable is declared inside the loop body: nothing is carried to the next iteration.
\<close>

definition prefixSumA_tick :: "nat \<Rightarrow> Flit \<Rightarrow> Element \<times> Flit" where
  "prefixSumA_tick W iflit =
     (let partialSum = fold (\<lambda>i partialSum. partialSum + element iflit ! i) [0..<W] 0
      in (partialSum, iflit))"

text \<open>
  The kernel on the finite content of its input pipe: the values written to the sum pipe
  and the flits written to the data pipe, in order.
\<close>

fun prefixSumA :: "nat \<Rightarrow> Flit list \<Rightarrow> Element list \<times> Flit list" where
  "prefixSumA W [] = ([], [])"
| "prefixSumA W (iflit # inPipe) =
     (case prefixSumA_tick W iflit of (partialSum, dflit) \<Rightarrow>
        case prefixSumA W inPipe of (sumPipe, dataPipe) \<Rightarrow>
          (partialSum # sumPipe, dflit # dataPipe))"

subsection \<open>prefixSumB\<close>

definition prefixSumB_lane :: "Flit \<Rightarrow> nat \<Rightarrow> Element \<times> Flit \<Rightarrow> Element \<times> Flit" where
  "prefixSumB_lane iflit i st =
     (case st of (prefixSum, oflit) \<Rightarrow>
        let prefixSum' = prefixSum + element iflit ! i
        in (prefixSum', oflit\<lparr>element := (element oflit)[i := prefixSum']\<rparr>))"

text \<open>
  One iteration after both reads: the transient \<open>prefixSum\<close> starts from \<open>sumSoFar\<close>,
  the lanes are filled, then \<^verbatim>\<open>sumSoFar += partialSum\<close>. The result is the new
  \<open>sumSoFar\<close> and the flit to write.
\<close>

definition prefixSumB_tick :: "nat \<Rightarrow> Element \<Rightarrow> Flit \<Rightarrow> Element \<Rightarrow> Element \<times> Flit" where
  "prefixSumB_tick W sumSoFar iflit partialSum =
     (case fold (prefixSumB_lane iflit) [0..<W] (sumSoFar, fresh_flit W) of
        (prefixSum, oflit) \<Rightarrow> (sumSoFar + partialSum, oflit))"

text \<open>
  The kernel on the finite contents of the sum pipe and the data pipe. It reads the data
  pipe first and the sum pipe second, and waits at whichever is empty.
\<close>

fun prefixSumB_loop :: "nat \<Rightarrow> Element \<Rightarrow> Element list \<Rightarrow> Flit list \<Rightarrow> Element \<times> Flit list" where
  "prefixSumB_loop W sumSoFar sumPipe [] = (sumSoFar, [])"
| "prefixSumB_loop W sumSoFar [] (iflit # dataPipe) = (sumSoFar, [])"
| "prefixSumB_loop W sumSoFar (partialSum # sumPipe) (iflit # dataPipe) =
     (case prefixSumB_tick W sumSoFar iflit partialSum of (sumSoFar', oflit) \<Rightarrow>
        case prefixSumB_loop W sumSoFar' sumPipe dataPipe of (final, outPipe) \<Rightarrow>
          (final, oflit # outPipe))"

text \<open>\<^verbatim>\<open>Element sumSoFar = 0;\<close> followed by the loop.\<close>

definition prefixSumB :: "nat \<Rightarrow> Element list \<Rightarrow> Flit list \<Rightarrow> Flit list" where
  "prefixSumB W sumPipe dataPipe = snd (prefixSumB_loop W 0 sumPipe dataPipe)"

definition prefixSumB_state :: "nat \<Rightarrow> Element list \<Rightarrow> Flit list \<Rightarrow> Element" where
  "prefixSumB_state W sumPipe dataPipe = fst (prefixSumB_loop W 0 sumPipe dataPipe)"

text \<open>
  The two kernels as \<^verbatim>\<open>main\<close> connects them:
  \<^verbatim>\<open>prefixSumA<InPipe, SumPipe, DataPipe>\<close> feeding
  \<^verbatim>\<open>prefixSumB<SumPipe, DataPipe, OutPipe>\<close>.
\<close>

definition prefixSumAB :: "nat \<Rightarrow> Flit list \<Rightarrow> Flit list" where
  "prefixSumAB W inPipe =
     (case prefixSumA W inPipe of (sumPipe, dataPipe) \<Rightarrow> prefixSumB W sumPipe dataPipe)"

section \<open>The stream as the host sees it\<close>

text \<open>
  The host addresses element \<open>i\<close> of a stream held in a buffer of flits as
  \<^verbatim>\<open>buf[i / STRM_WIDTH].element[i % STRM_WIDTH]\<close>.
\<close>

definition stream_element :: "nat \<Rightarrow> Flit list \<Rightarrow> nat \<Rightarrow> Element" where
  "stream_element W buf i = element (buf ! (i div W)) ! (i mod W)"

section \<open>The comparison at the end of main\<close>

text \<open>
  The inner loop over the lanes \<open>j\<close> of one flit:
  \<^verbatim>\<open>prefixSum += idataPtr[..].element[j]; if (prefixSum != odataPtr[..].element[j]) return 1;\<close>
  \<open>None\<close> is the early return.
\<close>

fun verify_lanes :: "Flit \<Rightarrow> Flit \<Rightarrow> nat list \<Rightarrow> Element \<Rightarrow> Element option" where
  "verify_lanes iflit oflit [] prefixSum = Some prefixSum"
| "verify_lanes iflit oflit (j # js) prefixSum =
     (let prefixSum' = prefixSum + element iflit ! j
      in if prefixSum' \<noteq> element oflit ! j then None
         else verify_lanes iflit oflit js prefixSum')"

text \<open>The outer loop over the flits \<open>k = i / STRM_WIDTH\<close> of the two buffers.\<close>

fun verify_flits :: "nat \<Rightarrow> Flit list \<Rightarrow> Flit list \<Rightarrow> nat list \<Rightarrow> Element \<Rightarrow> Element option" where
  "verify_flits W idataPtr odataPtr [] prefixSum = Some prefixSum"
| "verify_flits W idataPtr odataPtr (k # ks) prefixSum =
     (case verify_lanes (idataPtr ! k) (odataPtr ! k) [0..<W] prefixSum of
        None \<Rightarrow> None
      | Some prefixSum' \<Rightarrow> verify_flits W idataPtr odataPtr ks prefixSum')"

text \<open>
  What main prints to \<^verbatim>\<open>std::cout\<close> from the comparison on, line by line, and the status
  it returns. \<open>n\<close> is the number of flits of the stream (\<^verbatim>\<open>STRM_LEN / STRM_WIDTH\<close>).
  The two lines printed after a successful comparison hold the measured time; they are the
  argument \<open>timing\<close>.
\<close>

definition main_verify ::
  "nat \<Rightarrow> nat \<Rightarrow> Flit list \<Rightarrow> Flit list \<Rightarrow> string list \<Rightarrow> string list \<times> int" where
  "main_verify W n idataPtr odataPtr timing =
     (case verify_flits W idataPtr odataPtr [0..<n] 0 of
        None \<Rightarrow> ([''Sum incorrect.''], 1)
      | Some prefixSum \<Rightarrow> (timing, 0))"

section \<open>The pipeline of main as concurrent units\<close>

text \<open>
  \<^verbatim>\<open>#define DEFAULT_PIPE_DEPTH (4)\<close> The four pipes of main are declared with this
  minimum depth; the compiler may make a pipe deeper.
\<close>

definition DEFAULT_PIPE_DEPTH :: nat where
  "DEFAULT_PIPE_DEPTH = 4"

datatype pipe_id = InPipe | OutPipe | DataPipe | SumPipe

text \<open>
  Modelled from the spec: the pipe class \<^verbatim>\<open>ext::intel::pipe\<close> of the SYCL library, which
  main.cpp uses and the repository does not contain. Section 4.1: a channel is an ordered
  queue with a fixed capacity; \<^verbatim>\<open>write\<close> blocks while the channel is full and otherwise
  appends the record; \<^verbatim>\<open>read\<close> blocks while the channel is empty and otherwise removes
  and returns the oldest record. \<open>None\<close> means that the caller stays suspended at the
  operation.
\<close>

definition pipe_write :: "nat \<Rightarrow> 'a list \<Rightarrow> 'a \<Rightarrow> 'a list option" where
  "pipe_write depth q x = (if length q < depth then Some (q @ [x]) else None)"

definition pipe_read :: "'a list \<Rightarrow> ('a \<times> 'a list) option" where
  "pipe_read q = (case q of [] \<Rightarrow> None | x # q' \<Rightarrow> Some (x, q'))"

text \<open>
  The four kernels that main submits, named by their kernel classes. Each is a sequential
  program whose only suspension points are its pipe operations.
\<close>

datatype unit_id = Input2Pipe | PrefixSumA | PrefixSumB | Pipe2Output

text \<open>
  Where prefixSumA stands inside its loop body: before the read, before the write to the
  sum pipe (holding \<open>partialSum\<close> and \<open>iflit\<close>), before the write to the data pipe.
\<close>

datatype a_pc = A_read | A_write_sum Element Flit | A_write_data Flit

text \<open>
  Where prefixSumB stands: before the read of the data pipe, before the read of the sum
  pipe (holding \<open>iflit\<close>), before the write of \<open>oflit\<close>.
\<close>

datatype b_pc = B_read_data | B_read_sum Flit | B_write Flit

record config =
  src_i :: nat
  inQ :: "Flit list"
  a_pc :: a_pc
  sumQ :: "Element list"
  dataQ :: "Flit list"
  b_pc :: b_pc
  sumSoFar :: Element
  outQ :: "Flit list"
  snk_i :: nat
  odataBuf :: "Flit list"

text \<open>
  The host fills the output buffer with zeros before the kernels start:
  \<^verbatim>\<open>odataBuf[i / STRM_WIDTH].element[i % STRM_WIDTH] = 0x0;\<close>
\<close>

definition zero_flit :: "nat \<Rightarrow> Flit" where
  "zero_flit W = \<lparr>element = replicate W 0\<rparr>"

text \<open>
  The state in which main has submitted the kernels. The stream is the list \<open>idataBuf\<close>
  of its flits, the part of the host's buffer that the loops of Input2Pipe and
  Pipe2Output visit (\<^verbatim>\<open>STRM_LEN / STRM_WIDTH\<close> flits); \<open>src_i\<close> and \<open>snk_i\<close> count the
  iterations of these loops (\<^verbatim>\<open>i / STRM_WIDTH\<close>).
\<close>

definition init :: "nat \<Rightarrow> Flit list \<Rightarrow> config" where
  "init W idataBuf =
     \<lparr>src_i = 0, inQ = [], a_pc = A_read, sumQ = [], dataQ = [],
      b_pc = B_read_data, sumSoFar = 0, outQ = [], snk_i = 0,
      odataBuf = replicate (length idataBuf) (zero_flit W)\<rparr>"

text \<open>
  One pipe operation of one unit, together with the computation that follows it up to the
  unit's next pipe operation. \<open>depth\<close> gives the capacity of each pipe. \<open>None\<close>: the unit
  cannot move (it is suspended at its pipe operation, or its loop has ended).
\<close>

fun fire :: "nat \<Rightarrow> (pipe_id \<Rightarrow> nat) \<Rightarrow> Flit list \<Rightarrow> unit_id \<Rightarrow> config \<Rightarrow> config option" where
  "fire W depth idataBuf Input2Pipe c =
     (if src_i c < length idataBuf then
        (case pipe_write (depth InPipe) (inQ c) (idataBuf ! src_i c) of
           None \<Rightarrow> None
         | Some q \<Rightarrow> Some (c\<lparr>inQ := q, src_i := Suc (src_i c)\<rparr>))
      else None)"
| "fire W depth idataBuf PrefixSumA c =
     (case a_pc c of
        A_read \<Rightarrow>
          (case pipe_read (inQ c) of
             None \<Rightarrow> None
           | Some (iflit, q) \<Rightarrow>
               (case prefixSumA_tick W iflit of (partialSum, dflit) \<Rightarrow>
                  Some (c\<lparr>inQ := q, a_pc := A_write_sum partialSum dflit\<rparr>)))
      | A_write_sum partialSum iflit \<Rightarrow>
          (case pipe_write (depth SumPipe) (sumQ c) partialSum of
             None \<Rightarrow> None
           | Some q \<Rightarrow> Some (c\<lparr>sumQ := q, a_pc := A_write_data iflit\<rparr>))
      | A_write_data iflit \<Rightarrow>
          (case pipe_write (depth DataPipe) (dataQ c) iflit of
             None \<Rightarrow> None
           | Some q \<Rightarrow> Some (c\<lparr>dataQ := q, a_pc := A_read\<rparr>)))"
| "fire W depth idataBuf PrefixSumB c =
     (case b_pc c of
        B_read_data \<Rightarrow>
          (case pipe_read (dataQ c) of
             None \<Rightarrow> None
           | Some (iflit, q) \<Rightarrow> Some (c\<lparr>dataQ := q, b_pc := B_read_sum iflit\<rparr>))
      | B_read_sum iflit \<Rightarrow>
          (case pipe_read (sumQ c) of
             None \<Rightarrow> None
           | Some (partialSum, q) \<Rightarrow>
               (case prefixSumB_tick W (sumSoFar c) iflit partialSum of (sumSoFar', oflit) \<Rightarrow>
                  Some (c\<lparr>sumQ := q, sumSoFar := sumSoFar', b_pc := B_write oflit\<rparr>)))
      | B_write oflit \<Rightarrow>
          (case pipe_write (depth OutPipe) (outQ c) oflit of
             None \<Rightarrow> None
           | Some q \<Rightarrow> Some (c\<lparr>outQ := q, b_pc := B_read_data\<rparr>)))"
| "fire W depth idataBuf Pipe2Output c =
     (if snk_i c < length idataBuf then
        (case pipe_read (outQ c) of
           None \<Rightarrow> None
         | Some (flit, q) \<Rightarrow>
             Some (c\<lparr>outQ := q, odataBuf := (odataBuf c)[snk_i c := flit],
                     snk_i := Suc (snk_i c)\<rparr>))
      else None)"

text \<open>
  A schedule is the order in which the runtime lets the units move. It is admissible when
  every unit named in it can move at its turn.
\<close>

fun exec ::
  "nat \<Rightarrow> (pipe_id \<Rightarrow> nat) \<Rightarrow> Flit list \<Rightarrow> unit_id list \<Rightarrow> config \<Rightarrow> config option" where
  "exec W depth idataBuf [] c = Some c"
| "exec W depth idataBuf (u # us) c =
     (case fire W depth idataBuf u c of
        None \<Rightarrow> None
      | Some c' \<Rightarrow> exec W depth idataBuf us c')"

text \<open>
  The loops of Input2Pipe and Pipe2Output end after one iteration per flit of the stream;
  the loops of the two kernels are \<^verbatim>\<open>while (1)\<close>.
\<close>

fun finished :: "Flit list \<Rightarrow> unit_id \<Rightarrow> config \<Rightarrow> bool" where
  "finished idataBuf Input2Pipe c = (length idataBuf \<le> src_i c)"
| "finished idataBuf Pipe2Output c = (length idataBuf \<le> snk_i c)"
| "finished idataBuf PrefixSumA c = False"
| "finished idataBuf PrefixSumB c = False"

definition blocked ::
  "nat \<Rightarrow> (pipe_id \<Rightarrow> nat) \<Rightarrow> Flit list \<Rightarrow> unit_id \<Rightarrow> config \<Rightarrow> bool" where
  "blocked W depth idataBuf u c =
     (\<not> finished idataBuf u c \<and> fire W depth idataBuf u c = None)"

text \<open>
  One particular runtime: at each step the unit nearest to the sink that can move does
  so (main launches the kernels back to front). The result is the schedule followed and
  the state reached when the fuel is used up or no unit can move.
\<close>

fun drain ::
  "nat \<Rightarrow> (pipe_id \<Rightarrow> nat) \<Rightarrow> Flit list \<Rightarrow> nat \<Rightarrow> config \<Rightarrow> unit_id list \<times> config" where
  "drain W depth idataBuf 0 c = ([], c)"
| "drain W depth idataBuf (Suc fuel) c =
     (case List.find (\<lambda>u. fire W depth idataBuf u c \<noteq> None)
             [Pipe2Output, PrefixSumB, PrefixSumA, Input2Pipe] of
        None \<Rightarrow> ([], c)
      | Some u \<Rightarrow>
          (case fire W depth idataBuf u c of
             None \<Rightarrow> ([], c)
           | Some c' \<Rightarrow>
               (case drain W depth idataBuf fuel c' of (us, c'') \<Rightarrow> (u # us, c''))))"

section \<open>Counting the flits along the pipeline\<close>

text \<open>
  How many flits have passed each point of the pipeline, read off a state from the sink
  backwards: written to the output pipe, read from and written to the two inner pipes,
  read from the input pipe.
\<close>

definition cnt_out :: "config \<Rightarrow> nat" where
  "cnt_out c = snk_i c + length (outQ c)"

definition cnt_bdata :: "config \<Rightarrow> nat" where
  "cnt_bdata c = cnt_out c + (case b_pc c of B_read_data \<Rightarrow> 0 | _ \<Rightarrow> 1)"

definition cnt_bsum :: "config \<Rightarrow> nat" where
  "cnt_bsum c = cnt_out c + (case b_pc c of B_write _ \<Rightarrow> 1 | _ \<Rightarrow> 0)"

definition cnt_adata :: "config \<Rightarrow> nat" where
  "cnt_adata c = cnt_bdata c + length (dataQ c)"

definition cnt_asum :: "config \<Rightarrow> nat" where
  "cnt_asum c = cnt_bsum c + length (sumQ c)"

definition cnt_a :: "config \<Rightarrow> nat" where
  "cnt_a c = cnt_adata c + (case a_pc c of A_read \<Rightarrow> 0 | _ \<Rightarrow> 1)"

text \<open>The number of pipe operations performed so far.\<close>

definition work :: "config \<Rightarrow> nat" where
  "work c = src_i c + cnt_a c + cnt_asum c + cnt_adata c + cnt_bdata c + cnt_bsum c +
            cnt_out c + snk_i c"

text \<open>A pipe holds the values \<open>g lo, g (lo + 1), ...\<close> in this order.\<close>

definition pipe_is :: "'a list \<Rightarrow> (nat \<Rightarrow> 'a) \<Rightarrow> nat \<Rightarrow> bool" where
  "pipe_is q g lo = (q = map g [lo..<lo + length q])"

text \<open>
  The value of the running sum before flit \<open>k\<close> of the stream, and output flit \<open>k\<close>.
\<close>

definition state_at :: "nat \<Rightarrow> Flit list \<Rightarrow> nat \<Rightarrow> Element" where
  "state_at W buf k = fst (prefixSumSimple_loop W 0 (take k buf))"

definition out_at :: "nat \<Rightarrow> Flit list \<Rightarrow> nat \<Rightarrow> Flit" where
  "out_at W buf k = snd (prefixSumSimple_tick W (state_at W buf k) (buf ! k))"

text \<open>What holds in every state that the pipeline reaches on the stream \<open>idataBuf\<close>.\<close>

definition inv :: "nat \<Rightarrow> Flit list \<Rightarrow> config \<Rightarrow> bool" where
  "inv W idataBuf c =
     (cnt_a c + length (inQ c) = src_i c \<and>
      src_i c \<le> length idataBuf \<and>
      cnt_asum c + (case a_pc c of A_write_sum _ _ \<Rightarrow> 1 | _ \<Rightarrow> 0) = cnt_a c \<and>
      pipe_is (inQ c) ((!) idataBuf) (cnt_a c) \<and>
      pipe_is (dataQ c) ((!) idataBuf) (cnt_bdata c) \<and>
      pipe_is (sumQ c) (\<lambda>k. fst (prefixSumA_tick W (idataBuf ! k))) (cnt_bsum c) \<and>
      pipe_is (outQ c) (out_at W idataBuf) (snk_i c) \<and>
      (case a_pc c of
         A_read \<Rightarrow> True
       | A_write_sum partialSum iflit \<Rightarrow>
           iflit = idataBuf ! cnt_adata c \<and> partialSum = fst (prefixSumA_tick W iflit)
       | A_write_data iflit \<Rightarrow> iflit = idataBuf ! cnt_adata c) \<and>
      (case b_pc c of
         B_read_data \<Rightarrow> True
       | B_read_sum iflit \<Rightarrow> iflit = idataBuf ! cnt_out c
       | B_write oflit \<Rightarrow> oflit = out_at W idataBuf (cnt_out c)) \<and>
      sumSoFar c = state_at W idataBuf (cnt_bsum c) \<and>
      odataBuf c = map (out_at W idataBuf) [0..<snk_i c] @
                   replicate (length idataBuf - snk_i c) (zero_flit W))"

text \<open>
  The four pipe declarations of main.cpp: every pipe has depth \<open>DEFAULT_PIPE_DEPTH\<close>.
\<close>

definition pipe_depth :: "pipe_id \<Rightarrow> nat" where
  "pipe_depth p = DEFAULT_PIPE_DEPTH"

text \<open>The depth assignment in which every pipe has depth 0.\<close>

definition no_depth :: "pipe_id \<Rightarrow> nat" where
  "no_depth p = 0"

text \<open>
  Before it submits the kernels, main checks one thing: that the device supports USM
  device allocations; otherwise it calls \<^verbatim>\<open>std::terminate()\<close>. The depths with which
  the pipes are declared are not examined.
\<close>

datatype launch = Terminated | Started config

definition main_setup :: "bool \<Rightarrow> nat \<Rightarrow> (pipe_id \<Rightarrow> nat) \<Rightarrow> Flit list \<Rightarrow> launch" where
  "main_setup has_usm W depth idataBuf =
     (if \<not> has_usm then Terminated else Started (init W idataBuf))"

section \<open>The host's buffers\<close>

text \<open>
  The host stores element \<open>i\<close> of the input stream in lane \<open>i % STRM_WIDTH\<close> of flit
  \<open>i / STRM_WIDTH\<close> of a zero-initialised buffer:
  \<^verbatim>\<open>idataBuf[i / STRM_WIDTH].element[i % STRM_WIDTH] = ...\<close>
  In main.cpp the stream is \<open>0, 1, 2, ...\<close>; here it is any list \<open>xs\<close>. Only the
  flits that the stream occupies are kept.
\<close>

definition host_buffer :: "nat \<Rightarrow> Element list \<Rightarrow> Flit list" where
  "host_buffer W xs =
     fold (\<lambda>i buf. buf[i div W :=
              (buf ! (i div W))\<lparr>element := (element (buf ! (i div W)))[i mod W := xs ! i]\<rparr>])
       [0..<length xs] (replicate (length xs div W) (zero_flit W))"

text \<open>The first \<open>N\<close> elements of the stream held in a buffer, as the host reads them.\<close>

definition host_elements :: "nat \<Rightarrow> nat \<Rightarrow> Flit list \<Rightarrow> Element list" where
  "host_elements W N buf = map (stream_element W buf) [0..<N]"

section \<open>Equivalence of the two-stage and the single-stage kernel\<close>

lemma simple_lane_pair:
  "prefixSumSimple_lane iflit i (p, ofl) =
     (p + element iflit ! i, ofl\<lparr>element := (element ofl)[i := p + element iflit ! i]\<rparr>)"
  by (simp add: prefixSumSimple_lane_def Let_def)

lemma fst_fold_simple_lane:
  "fst (fold (prefixSumSimple_lane iflit) [0..<W] (s, ofl)) =
     s + fold (\<lambda>i p. p + element iflit ! i) [0..<W] 0"
proof (induction W)
  case 0
  show ?case by simp
next
  case (Suc W)
  obtain p ofl' where st: "fold (prefixSumSimple_lane iflit) [0..<W] (s, ofl) = (p, ofl')"
    by (cases "fold (prefixSumSimple_lane iflit) [0..<W] (s, ofl)")
  from Suc st have p: "p = s + fold (\<lambda>i p. p + element iflit ! i) [0..<W] 0" by simp
  show ?case
    by (simp add: st simple_lane_pair p add.assoc)
qed

lemma B_lane_eq_simple_lane: "prefixSumB_lane = prefixSumSimple_lane"
  by (intro ext) (simp add: prefixSumB_lane_def prefixSumSimple_lane_def)

lemma fst_simple_tick:
  "fst (prefixSumSimple_tick W s iflit) = s + fst (prefixSumA_tick W iflit)"
  by (simp add: prefixSumSimple_tick_def prefixSumA_tick_def fst_fold_simple_lane Let_def)

lemma B_tick_eq_simple_tick:
  "prefixSumB_tick W s iflit (fst (prefixSumA_tick W iflit)) = prefixSumSimple_tick W s iflit"
proof -
  obtain p ofl where st: "prefixSumSimple_tick W s iflit = (p, ofl)"
    by (cases "prefixSumSimple_tick W s iflit")
  have "p = s + fst (prefixSumA_tick W iflit)"
    using fst_simple_tick [of W s iflit] st by simp
  then show ?thesis
    using st by (simp add: prefixSumB_tick_def prefixSumSimple_tick_def B_lane_eq_simple_lane)
qed

lemma snd_A_tick: "snd (prefixSumA_tick W iflit) = iflit"
  by (simp add: prefixSumA_tick_def Let_def)

lemma B_loop_after_A:
  "prefixSumB_loop W s (fst (prefixSumA W fs)) (snd (prefixSumA W fs)) =
     prefixSumSimple_loop W s fs"
proof (induction fs arbitrary: s)
  case Nil
  show ?case by simp
next
  case (Cons f fs)
  obtain ps d where a: "prefixSumA_tick W f = (ps, d)"
    by (cases "prefixSumA_tick W f")
  have d: "d = f" using snd_A_tick [of W f] a by simp
  have ps: "ps = fst (prefixSumA_tick W f)" using a by simp
  obtain sums datas where r: "prefixSumA W fs = (sums, datas)"
    by (cases "prefixSumA W fs")
  have t: "prefixSumB_tick W s f ps = prefixSumSimple_tick W s f"
    unfolding ps by (rule B_tick_eq_simple_tick)
  obtain s' ofl where st: "prefixSumSimple_tick W s f = (s', ofl)"
    by (cases "prefixSumSimple_tick W s f")
  from Cons [of s'] r
  have ih: "prefixSumB_loop W s' sums datas = prefixSumSimple_loop W s' fs" by simp
  show ?case
    by (simp add: a d r t st ih)
qed

text \<open>
  C1. For every finite input flit sequence, the flits that the two-stage pipeline
  (prefixSumA feeding prefixSumB through the sum pipe and the data pipe) writes to its
  output pipe are, flit for flit, those that prefixSumSimple writes on the same input.
\<close>

theorem two_stage_equals_single_stage:
  "prefixSumAB W inPipe = prefixSumSimple W inPipe"
proof -
  obtain sums datas where r: "prefixSumA W inPipe = (sums, datas)"
    by (cases "prefixSumA W inPipe")
  have "prefixSumB_loop W 0 sums datas = prefixSumSimple_loop W 0 inPipe"
    using B_loop_after_A [of W 0 inPipe] r by simp
  then show ?thesis
    by (simp add: prefixSumAB_def prefixSumB_def prefixSumSimple_def r)
qed

section \<open>Prefix sums of the element stream\<close>

lemma unat_sum_mod:
  "unat (\<Sum>j\<in>A. (f j :: Element)) = (\<Sum>j\<in>A. unat (f j)) mod 2 ^ 64"
proof (induction A rule: infinite_finite_induct)
  case (infinite A)
  then show ?case by simp
next
  case empty
  show ?case by simp
next
  case (insert x F)
  then show ?case
    by (simp add: unat_word_ariths mod_add_right_eq)
qed

lemma fold_simple_lane:
  "n \<le> length (element ofl) \<Longrightarrow>
   fold (prefixSumSimple_lane iflit) [0..<n] (s, ofl) =
     (s + (\<Sum>m<n. element iflit ! m),
      ofl\<lparr>element := map (\<lambda>l. s + (\<Sum>m\<le>l. element iflit ! m)) [0..<n] @ drop n (element ofl)\<rparr>)"
proof (induction n)
  case 0
  show ?case by simp
next
  case (Suc n)
  then have ih: "fold (prefixSumSimple_lane iflit) [0..<n] (s, ofl) =
     (s + (\<Sum>m<n. element iflit ! m),
      ofl\<lparr>element := map (\<lambda>l. s + (\<Sum>m\<le>l. element iflit ! m)) [0..<n] @ drop n (element ofl)\<rparr>)"
    by simp
  have upd: "(map g [0..<n] @ drop n xs)[n := v] = map g [0..<n] @ v # drop (Suc n) xs"
    if "n < length xs" for g :: "nat \<Rightarrow> Element" and xs v
    using that by (simp add: list_update_append Cons_nth_drop_Suc [symmetric])
  have lt: "(\<Sum>m<n. element iflit ! m) + element iflit ! n = (\<Sum>m\<le>n. element iflit ! m)"
    by (simp add: lessThan_Suc_atMost [symmetric])
  from Suc.prems have n: "n < length (element ofl)" by simp
  show ?case
    by (simp add: ih simple_lane_pair upd [OF n] add.assoc lt lessThan_Suc_atMost)
qed

lemma simple_tick_eq:
  "prefixSumSimple_tick W s iflit =
     (s + (\<Sum>m<W. element iflit ! m),
      \<lparr>element = map (\<lambda>l. s + (\<Sum>m\<le>l. element iflit ! m)) [0..<W]\<rparr>)"
  by (simp add: prefixSumSimple_tick_def fold_simple_lane fresh_flit_def)


lemma tick_any_oflit:
  "length (element ofl) = W \<Longrightarrow>
   fold (prefixSumSimple_lane iflit) [0..<W] (s, ofl) = prefixSumSimple_tick W s iflit"
  by (simp add: fold_simple_lane simple_tick_eq)

lemma stream_element_Cons_lt:
  "j < W \<Longrightarrow> stream_element W (f # fs) j = element f ! j"
  by (simp add: stream_element_def)

lemma stream_element_Cons_ge:
  "0 < W \<Longrightarrow> stream_element W (f # fs) (W + j) = stream_element W fs j"
  by (simp add: stream_element_def div_add_self1)

lemma sum_atMost_split:
  fixes g :: "nat \<Rightarrow> Element"
  shows "(\<Sum>j\<le>W + i. g j) = (\<Sum>j<W. g j) + (\<Sum>j\<le>i. g (W + j))"
proof -
  have "(\<Sum>j\<le>W + i. g j) = sum g {0..<W + Suc i}"
    by (simp add: atLeast0LessThan lessThan_Suc_atMost)
  also have "\<dots> = sum g {0..<W} + sum g {W..<W + Suc i}"
    by (rule sum.atLeastLessThan_concat [symmetric]) simp_all
  also have "sum g {W..<W + Suc i} = (\<Sum>j = 0..<Suc i. g (W + j))"
    using sum.shift_bounds_nat_ivl [of g 0 W "Suc i"] by (simp add: add.commute)
  finally show ?thesis
    by (simp add: atLeast0LessThan lessThan_Suc_atMost)
qed

lemma sum_lessThan_split:
  fixes g :: "nat \<Rightarrow> Element"
  shows "(\<Sum>j<W + n. g j) = (\<Sum>j<W. g j) + (\<Sum>j<n. g (W + j))"
proof -
  have "(\<Sum>j<W + n. g j) = sum g {0..<W + n}"
    by (simp add: atLeast0LessThan)
  also have "\<dots> = sum g {0..<W} + sum g {W..<W + n}"
    by (rule sum.atLeastLessThan_concat [symmetric]) simp_all
  also have "sum g {W..<W + n} = (\<Sum>j = 0..<n. g (W + j))"
    using sum.shift_bounds_nat_ivl [of g 0 W n] by (simp add: add.commute)
  finally show ?thesis
    by (simp add: atLeast0LessThan)
qed

lemma simple_loop_Cons:
  "prefixSumSimple_loop W s (f # fs) =
     (fst (prefixSumSimple_loop W (s + (\<Sum>m<W. element f ! m)) fs),
      \<lparr>element = map (\<lambda>l. s + (\<Sum>m\<le>l. element f ! m)) [0..<W]\<rparr> #
        snd (prefixSumSimple_loop W (s + (\<Sum>m<W. element f ! m)) fs))"
  by (simp add: simple_tick_eq split: prod.split)

lemma length_simple_loop: "length (snd (prefixSumSimple_loop W s fs)) = length fs"
  by (induction fs arbitrary: s)
    (simp_all add: simple_loop_Cons del: prefixSumSimple_loop.simps(2))

lemma simple_loop_state:
  "fst (prefixSumSimple_loop W s fs) = s + (\<Sum>j<W * length fs. stream_element W fs j)"
proof (induction fs arbitrary: s)
  case Nil
  show ?case by simp
next
  case (Cons f fs)
  have a: "(\<Sum>j<W. stream_element W (f # fs) j) = (\<Sum>m<W. element f ! m)"
    by (rule sum.cong) (simp_all add: stream_element_Cons_lt)
  have b: "(\<Sum>j<W * length fs. stream_element W (f # fs) (W + j)) =
           (\<Sum>j<W * length fs. stream_element W fs j)"
  proof (cases "W = 0")
    case True
    then show ?thesis by simp
  next
    case False
    then show ?thesis by (simp add: stream_element_Cons_ge)
  qed
  have "(\<Sum>j<W * length (f # fs). stream_element W (f # fs) j) =
        (\<Sum>m<W. element f ! m) + (\<Sum>j<W * length fs. stream_element W fs j)"
    using sum_lessThan_split [of "stream_element W (f # fs)" W "W * length fs"]
    by (simp add: a b)
  then show ?case
    by (simp add: simple_loop_Cons Cons.IH add.assoc del: prefixSumSimple_loop.simps(2))
qed

lemma simple_loop_stream:
  "i < W * length fs \<Longrightarrow>
   stream_element W (snd (prefixSumSimple_loop W s fs)) i =
     s + (\<Sum>j\<le>i. stream_element W fs j)"
proof (induction fs arbitrary: s i)
  case Nil
  then show ?case by simp
next
  case (Cons f fs)
  from Cons.prems have W: "0 < W" by (cases W) simp_all
  let ?s' = "s + (\<Sum>m<W. element f ! m)"
  show ?case
  proof (cases "i < W")
    case True
    have "(\<Sum>j\<le>i. stream_element W (f # fs) j) = (\<Sum>m\<le>i. element f ! m)"
      using True by (intro sum.cong) (simp_all add: stream_element_Cons_lt)
    then show ?thesis
      using True
      by (simp add: simple_loop_Cons stream_element_Cons_lt del: prefixSumSimple_loop.simps(2))
  next
    case False
    then obtain i' where i: "i = W + i'"
      by (metis le_add_diff_inverse not_less)
    with Cons.prems have i': "i' < W * length fs" by simp
    have a: "(\<Sum>j<W. stream_element W (f # fs) j) = (\<Sum>m<W. element f ! m)"
      by (rule sum.cong) (simp_all add: stream_element_Cons_lt)
    have "(\<Sum>j\<le>W + i'. stream_element W (f # fs) j) =
          (\<Sum>m<W. element f ! m) + (\<Sum>j\<le>i'. stream_element W fs j)"
      using sum_atMost_split [of "stream_element W (f # fs)" W i'] W
      by (simp add: a stream_element_Cons_ge)
    then show ?thesis
      using W
      by (simp add: i simple_loop_Cons stream_element_Cons_ge Cons.IH [OF i'] add.assoc
          del: prefixSumSimple_loop.simps(2))
  qed
qed

section \<open>The comparison loop of main\<close>

lemma verify_lanes_append:
  "verify_lanes iflit oflit (js @ [j]) p =
     (case verify_lanes iflit oflit js p of
        None \<Rightarrow> None
      | Some p' \<Rightarrow> if p' + element iflit ! j \<noteq> element oflit ! j then None
                   else Some (p' + element iflit ! j))"
  by (induction js arbitrary: p) (simp_all add: Let_def)

lemma verify_lanes_upt:
  "verify_lanes iflit oflit [0..<m] p =
     (if \<forall>l<m. element oflit ! l = p + (\<Sum>t\<le>l. element iflit ! t)
      then Some (p + (\<Sum>t<m. element iflit ! t)) else None)"
proof (induction m)
  case 0
  show ?case by simp
next
  case (Suc m)
  have lt: "(\<Sum>t<m. element iflit ! t) + element iflit ! m = (\<Sum>t\<le>m. element iflit ! t)"
    by (simp add: lessThan_Suc_atMost [symmetric])
  show ?case
    by (auto simp: verify_lanes_append Suc less_Suc_eq add.assoc lt lessThan_Suc_atMost)
qed

lemma verify_flits_append:
  "verify_flits W idata odata (ks @ [k]) p =
     (case verify_flits W idata odata ks p of
        None \<Rightarrow> None
      | Some p' \<Rightarrow> verify_lanes (idata ! k) (odata ! k) [0..<W] p')"
  by (induction ks arbitrary: p) (simp_all split: option.split)

lemma stream_element_flit:
  "l < W \<Longrightarrow> stream_element W buf (W * k + l) = element (buf ! k) ! l"
  by (simp add: stream_element_def)

lemma sum_flit_stream:
  "(\<Sum>t<W. element (buf ! k) ! t) = (\<Sum>t<W. stream_element W buf (W * k + t))"
  by (rule sum.cong) (simp_all add: stream_element_flit)

lemma sum_atMost_flit_stream:
  "l < W \<Longrightarrow> (\<Sum>t\<le>l. element (buf ! k) ! t) = (\<Sum>t\<le>l. stream_element W buf (W * k + t))"
  by (rule sum.cong) (simp_all add: stream_element_flit)

lemma stream_index_split:
  "i < W * Suc n \<Longrightarrow> \<not> i < W * n \<Longrightarrow> \<exists>l<W. i = W * n + l"
  by (rule exI [of _ "i - W * n"]) auto

lemma verify_flits_upt:
  "verify_flits W idata odata [0..<n] p =
     (if \<forall>i<W * n. stream_element W odata i = p + (\<Sum>j\<le>i. stream_element W idata j)
      then Some (p + (\<Sum>j<W * n. stream_element W idata j)) else None)"
proof (induction n)
  case 0
  show ?case by simp
next
  case (Suc n)
  let ?ok = "\<lambda>m. \<forall>i<W * m. stream_element W odata i = p + (\<Sum>j\<le>i. stream_element W idata j)"
  let ?q = "p + (\<Sum>j<W * n. stream_element W idata j)"
  have flit: "(\<forall>l<W. element (odata ! n) ! l = ?q + (\<Sum>t\<le>l. element (idata ! n) ! t)) \<longleftrightarrow>
              (\<forall>l<W. stream_element W odata (W * n + l) =
                 p + (\<Sum>j\<le>W * n + l. stream_element W idata j))"
  proof -
    have "?q + (\<Sum>t\<le>l. element (idata ! n) ! t) =
          p + (\<Sum>j\<le>W * n + l. stream_element W idata j)" if "l < W" for l
    proof -
      have "(\<Sum>t\<le>l. element (idata ! n) ! t) = (\<Sum>t\<le>l. stream_element W idata (W * n + t))"
        using that by (rule sum_atMost_flit_stream)
      then show ?thesis by (simp add: sum_atMost_split add.assoc)
    qed
    then show ?thesis by (simp add: stream_element_flit add.assoc)
  qed
  have step: "?ok (Suc n) \<longleftrightarrow> ?ok n \<and>
              (\<forall>l<W. stream_element W odata (W * n + l) =
                 p + (\<Sum>j\<le>W * n + l. stream_element W idata j))"
  proof
    assume a: "?ok (Suc n)"
    show "?ok n \<and> (\<forall>l<W. stream_element W odata (W * n + l) =
                 p + (\<Sum>j\<le>W * n + l. stream_element W idata j))"
      using a by simp
  next
    assume b: "?ok n \<and> (\<forall>l<W. stream_element W odata (W * n + l) =
                 p + (\<Sum>j\<le>W * n + l. stream_element W idata j))"
    show "?ok (Suc n)"
    proof (intro allI impI)
      fix i assume i: "i < W * Suc n"
      show "stream_element W odata i = p + (\<Sum>j\<le>i. stream_element W idata j)"
      proof (cases "i < W * n")
        case True
        with b show ?thesis by simp
      next
        case False
        with i obtain l where "l < W" "i = W * n + l"
          using stream_index_split by blast
        with b show ?thesis by simp
      qed
    qed
  qed
  have fin: "?q + (\<Sum>t<W. element (idata ! n) ! t) =
             p + (\<Sum>j<W * Suc n. stream_element W idata j)"
    using sum_lessThan_split [of "stream_element W idata" "W * n" W]
    by (simp add: sum_flit_stream add.assoc add.commute [of W "W * n"])
  have unroll: "verify_flits W idata odata [0..<Suc n] p =
      (case verify_flits W idata odata [0..<n] p of
         None \<Rightarrow> None
       | Some p' \<Rightarrow> verify_lanes (idata ! n) (odata ! n) [0..<W] p')"
    by (simp add: verify_flits_append)
  show ?case
  proof (cases "?ok n")
    case False
    then have "verify_flits W idata odata [0..<n] p = None"
      using Suc by simp
    moreover from False have "\<not> ?ok (Suc n)"
      using step by blast
    ultimately show ?thesis
      unfolding unroll by simp
  next
    case True
    then have prev: "verify_flits W idata odata [0..<n] p = Some ?q"
      using Suc by simp
    show ?thesis
    proof (cases "\<forall>l<W. element (odata ! n) ! l = ?q + (\<Sum>t\<le>l. element (idata ! n) ! t)")
      case True
      with \<open>?ok n\<close> have "?ok (Suc n)"
        using step flit by blast
      with True show ?thesis
        unfolding unroll prev using fin by (simp add: verify_lanes_upt)
    next
      case False
      then have "\<not> ?ok (Suc n)"
        using step flit by blast
      with False show ?thesis
        unfolding unroll prev by (simp add: verify_lanes_upt)
    qed
  qed
qed

section \<open>Evaluating the model on numerals\<close>

lemma upt_0_1: "[0..<1] = [0]" by simp
lemma upt_0_2: "[0..<2] = [0, 1]" by code_simp
lemma upt_0_4: "[0..<4] = [0, 1, 2, 3]" by code_simp
lemma upt_0_8: "[0..<8] = [0, 1, 2, 3, 4, 5, 6, 7]" by code_simp

lemma replicate_numeral: "replicate (numeral n) x = x # replicate (pred_numeral n) x"
  by (simp add: numeral_eq_Suc)

lemma sum_atMost_3:
  "(\<Sum>j\<le>(3::nat). g j) = g 0 + g 1 + g 2 + (g 3 :: 'a::comm_monoid_add)"
proof -
  have "{..(3::nat)} = {0, 1, 2, 3}" by auto
  then show ?thesis by (simp add: add.assoc)
qed

lemma sum_atMost_1: "(\<Sum>j\<le>(1::nat). g j) = g 0 + (g 1 :: 'a::comm_monoid_add)"
  by simp

section \<open>Correctness of the prefix sums\<close>

text \<open>
  C2. For every finite input, element \<open>i\<close> of the output stream of the prefix-sum kernel
  is the sum of the input elements \<open>0 .. i\<close> in unsigned 64-bit arithmetic, that is modulo
  \<open>2 ^ 64\<close>. In one iteration the kernel takes one flit of \<open>W\<close> elements and, lane by
  lane in index order, adds the element to \<open>prefixSum\<close> and stores \<open>prefixSum\<close> in the
  same lane of the output flit. The comparison loop of main, which recomputes the sums,
  accepts the kernel's output.
\<close>

theorem prefix_sum_correct:
  assumes "i < W * length inPipe"
  shows "stream_element W (prefixSumSimple W inPipe) i = (\<Sum>j\<le>i. stream_element W inPipe j)
       \<and> unat (stream_element W (prefixSumSimple W inPipe) i) =
           (\<Sum>j\<le>i. unat (stream_element W inPipe j)) mod 2 ^ 64
       \<and> prefixSumSimple_tick W s iflit =
           (s + (\<Sum>m<W. element iflit ! m),
            \<lparr>element = map (\<lambda>l. s + (\<Sum>m\<le>l. element iflit ! m)) [0..<W]\<rparr>)
       \<and> main_verify W (length inPipe) inPipe (prefixSumSimple W inPipe) timing = (timing, 0)"
proof -
  have out: "stream_element W (prefixSumSimple W inPipe) k = (\<Sum>j\<le>k. stream_element W inPipe j)"
    if "k < W * length inPipe" for k
    using simple_loop_stream [OF that, of 0] by (simp add: prefixSumSimple_def)
  have "verify_flits W inPipe (prefixSumSimple W inPipe) [0..<length inPipe] 0 =
          Some (\<Sum>j<W * length inPipe. stream_element W inPipe j)"
    unfolding verify_flits_upt using out by simp
  then have "main_verify W (length inPipe) inPipe (prefixSumSimple W inPipe) timing = (timing, 0)"
    by (simp add: main_verify_def)
  with out [OF assms] show ?thesis
    by (simp add: unat_sum_mod simple_tick_eq)
qed

theorem prefix_sum_correct_witness:
  "(3::nat) < 2 * length [\<lparr>element = [1, 2]\<rparr>, \<lparr>element = [3, 18446744073709551615]\<rparr>]
   \<and> unat (stream_element 2
        (prefixSumSimple 2 [\<lparr>element = [1, 2]\<rparr>, \<lparr>element = [3, 18446744073709551615]\<rparr>]) 3) = 5"
proof -
  have h: "(3::nat) < 2 * length [\<lparr>element = [1, 2]\<rparr>, \<lparr>element = [3, 18446744073709551615]\<rparr>]"
    by simp
  have "unat (stream_element 2
          (prefixSumSimple 2 [\<lparr>element = [1, 2]\<rparr>, \<lparr>element = [3, 18446744073709551615]\<rparr>]) 3) =
        (\<Sum>j\<le>3. unat (stream_element 2
            [\<lparr>element = [1, 2]\<rparr>, \<lparr>element = [3, 18446744073709551615]\<rparr>] j)) mod 2 ^ 64"
    using prefix_sum_correct [OF h] by blast
  also have "\<dots> = 5"
    by (simp add: stream_element_def sum_atMost_3)
  finally show ?thesis using h by blast
qed

section \<open>What main reports when the comparison fails\<close>

text \<open>
  C9 as the specification states it asks for the index of the mismatch and for the expected
  and the actual value in the report. Two comparisons that fail at different indices with
  different values print the same single line.
\<close>

theorem mismatch_report_counterexample:
  "main_verify 2 1 [\<lparr>element = [1, 2]\<rparr>] [\<lparr>element = [0, 3]\<rparr>] [] = ([''Sum incorrect.''], 1)
   \<and> main_verify 2 1 [\<lparr>element = [1, 2]\<rparr>] [\<lparr>element = [1, 7]\<rparr>] [] = ([''Sum incorrect.''], 1)"
  by (simp add: main_verify_def upt_0_2)

text \<open>
  C9, amended. When some output element differs from the reference prefix sum, main prints
  the line \<open>Sum incorrect.\<close> and nothing else, and returns status 1; the report names
  neither an index nor a value. Otherwise it prints the timing lines and returns 0.
\<close>

theorem mismatch_report:
  "main_verify W n idataPtr odataPtr timing =
     (if \<forall>i<W * n. stream_element W odataPtr i = (\<Sum>j\<le>i. stream_element W idataPtr j)
      then (timing, 0) else ([''Sum incorrect.''], 1))"
  by (simp add: main_verify_def verify_flits_upt)

theorem mismatch_report_witness:
  "main_verify 2 1 [\<lparr>element = [1, 2]\<rparr>] [\<lparr>element = [1, 7]\<rparr>] [''t''] = ([''Sum incorrect.''], 1)
   \<and> main_verify 2 1 [\<lparr>element = [1, 2]\<rparr>] [\<lparr>element = [1, 3]\<rparr>] [''t''] = ([''t''], 0)"
proof -
  have a: "\<not> (\<forall>i<2 * 1. stream_element 2 [\<lparr>element = [1, 7]\<rparr>] i =
              (\<Sum>j\<le>i. stream_element 2 [\<lparr>element = [1, 2]\<rparr>] j))"
  proof
    assume "\<forall>i<2 * 1. stream_element 2 [\<lparr>element = [1, 7]\<rparr>] i =
              (\<Sum>j\<le>i. stream_element 2 [\<lparr>element = [1, 2]\<rparr>] j)"
    then have "stream_element 2 [\<lparr>element = [1, 7]\<rparr>] 1 =
              (\<Sum>j\<le>1. stream_element 2 [\<lparr>element = [1, 2]\<rparr>] j)"
      by simp
    then show False
      by (simp add: stream_element_def sum_atMost_1)
  qed
  have b: "\<forall>i<2 * 1. stream_element 2 [\<lparr>element = [1, 3]\<rparr>] i =
              (\<Sum>j\<le>i. stream_element 2 [\<lparr>element = [1, 2]\<rparr>] j)"
  proof (intro allI impI)
    fix i :: nat assume "i < 2 * 1"
    then have "i = 0 \<or> i = 1" by auto
    then show "stream_element 2 [\<lparr>element = [1, 3]\<rparr>] i =
              (\<Sum>j\<le>i. stream_element 2 [\<lparr>element = [1, 2]\<rparr>] j)"
      by (auto simp: stream_element_def sum_atMost_1)
  qed
  show ?thesis
    using mismatch_report [of 2 1 "[\<lparr>element = [1, 2]\<rparr>]" "[\<lparr>element = [1, 7]\<rparr>]" "[''t'']"]
      mismatch_report [of 2 1 "[\<lparr>element = [1, 2]\<rparr>]" "[\<lparr>element = [1, 3]\<rparr>]" "[''t'']"]
      a b
    by simp
qed

section \<open>The two stages, iteration by iteration\<close>

lemma fold_partial_sum:
  "fold (\<lambda>i p. p + g i) [0..<n] (s :: Element) = s + (\<Sum>m<n. g m)"
  by (induction n) (simp_all add: add.assoc)

lemma A_tick_eq:
  "prefixSumA_tick W iflit = (\<Sum>m<W. element iflit ! m, iflit)"
  by (simp add: prefixSumA_tick_def fold_partial_sum)

lemma prefixSumA_eq:
  "prefixSumA W fs = (map (\<lambda>f. fst (prefixSumA_tick W f)) fs, fs)"
  by (induction fs) (simp_all add: A_tick_eq)

lemma B_tick_eq:
  "prefixSumB_tick W s iflit ps = (s + ps, snd (prefixSumSimple_tick W s iflit))"
  by (simp add: prefixSumB_tick_def prefixSumSimple_tick_def B_lane_eq_simple_lane
      case_prod_beta)

lemma B_loop_Suc_take:
  "k < length sums \<Longrightarrow> k < length datas \<Longrightarrow>
   prefixSumB_loop W s (take (Suc k) sums) (take (Suc k) datas) =
     (fst (prefixSumB_loop W s (take k sums) (take k datas)) + sums ! k,
      snd (prefixSumB_loop W s (take k sums) (take k datas)) @
        [snd (prefixSumSimple_tick W
           (fst (prefixSumB_loop W s (take k sums) (take k datas))) (datas ! k))])"
proof (induction k arbitrary: s sums datas)
  case 0
  then obtain x xs d ds where "sums = x # xs" "datas = d # ds"
    by (cases sums; cases datas) auto
  then show ?case by (simp add: B_tick_eq)
next
  case (Suc k)
  then obtain x xs d ds where c: "sums = x # xs" "datas = d # ds"
    by (cases sums; cases datas) auto
  with Suc.prems have "k < length xs" "k < length ds" by simp_all
  from Suc.IH [OF this, of "s + x"] show ?case
    by (simp add: c B_tick_eq case_prod_beta)
qed

lemma B_loop_nth:
  "k < length sums \<Longrightarrow> k < length datas \<Longrightarrow>
   snd (prefixSumB_loop W s sums datas) ! k =
     snd (prefixSumSimple_tick W
       (fst (prefixSumB_loop W s (take k sums) (take k datas))) (datas ! k))"
proof (induction k arbitrary: s sums datas)
  case 0
  then obtain x xs d ds where "sums = x # xs" "datas = d # ds"
    by (cases sums; cases datas) auto
  then show ?case by (simp add: B_tick_eq case_prod_beta)
next
  case (Suc k)
  then obtain x xs d ds where c: "sums = x # xs" "datas = d # ds"
    by (cases sums; cases datas) auto
  with Suc.prems have "k < length xs" "k < length ds" by simp_all
  from Suc.IH [OF this, of "s + x"] show ?case
    by (simp add: c B_tick_eq case_prod_beta)
qed

text \<open>
  C4. In every iteration prefixSumA reads one flit, writes to the sum pipe the sum of the
  \<open>W\<close> elements of that flit (modulo \<open>2 ^ 64\<close>) and writes the flit, unchanged, to the
  data pipe. It keeps nothing from one iteration to the next: what it writes in iteration
  \<open>k\<close> is a function of the flit read in iteration \<open>k\<close> alone.
\<close>

theorem stage_A_tick:
  assumes "k < length inPipe"
  shows "fst (prefixSumA W inPipe) ! k = (\<Sum>m<W. element (inPipe ! k) ! m)
       \<and> unat (fst (prefixSumA W inPipe) ! k) =
           (\<Sum>m<W. unat (element (inPipe ! k) ! m)) mod 2 ^ 64
       \<and> snd (prefixSumA W inPipe) ! k = inPipe ! k
       \<and> length (fst (prefixSumA W inPipe)) = length inPipe
       \<and> length (snd (prefixSumA W inPipe)) = length inPipe
       \<and> (fst (prefixSumA W inPipe) ! k, snd (prefixSumA W inPipe) ! k) =
           prefixSumA_tick W (inPipe ! k)
       \<and> (\<forall>inPipe'. k < length inPipe' \<and> inPipe' ! k = inPipe ! k \<longrightarrow>
            fst (prefixSumA W inPipe') ! k = fst (prefixSumA W inPipe) ! k \<and>
            snd (prefixSumA W inPipe') ! k = snd (prefixSumA W inPipe) ! k)"
  using assms by (simp add: prefixSumA_eq A_tick_eq unat_sum_mod)

theorem stage_A_tick_witness:
  "(1::nat) < length [\<lparr>element = [1, 2]\<rparr>, \<lparr>element = [3, 18446744073709551615]\<rparr>]
   \<and> fst (prefixSumA 2 [\<lparr>element = [1, 2]\<rparr>, \<lparr>element = [3, 18446744073709551615]\<rparr>]) ! 1 = 2
   \<and> snd (prefixSumA 2 [\<lparr>element = [1, 2]\<rparr>, \<lparr>element = [3, 18446744073709551615]\<rparr>]) ! 1 =
       \<lparr>element = [3, 18446744073709551615]\<rparr>"
proof -
  have h: "(1::nat) < length [\<lparr>element = [1, 2]\<rparr>, \<lparr>element = [3, 18446744073709551615]\<rparr>]"
    by simp
  have "{..<(2::nat)} = {0, 1}" by auto
  then have s: "(\<Sum>m<2. [3, 18446744073709551615 :: Element] ! m) = 2"
    by simp
  show ?thesis
    using stage_A_tick [OF h, of 2] s by simp
qed


lemma prefixSumA_take:
  "prefixSumA W (take k fs) = (take k (fst (prefixSumA W fs)), take k (snd (prefixSumA W fs)))"
  by (simp add: prefixSumA_eq take_map)

lemma B_state_after_A:
  "fst (prefixSumB_loop W s (take k (fst (prefixSumA W fs))) (take k (snd (prefixSumA W fs)))) =
     fst (prefixSumSimple_loop W s (take k fs))"
  using B_loop_after_A [of W s "take k fs"] by (simp add: prefixSumA_take)

lemma stream_element_take:
  "j < W * k \<Longrightarrow> stream_element W (take k fs) j = stream_element W fs j"
proof -
  assume "j < W * k"
  then have "j div W < k"
    by (metis div_less_iff_less_mult gr_implies_not0 mult.commute mult_0 neq0_conv)
  then show ?thesis by (simp add: stream_element_def)
qed

lemma simple_state_take:
  "k \<le> length fs \<Longrightarrow>
   fst (prefixSumSimple_loop W s (take k fs)) = s + (\<Sum>j<W * k. stream_element W fs j)"
proof -
  assume k: "k \<le> length fs"
  have "(\<Sum>j<W * k. stream_element W (take k fs) j) = (\<Sum>j<W * k. stream_element W fs j)"
    by (rule sum.cong) (simp_all add: stream_element_take)
  with k show ?thesis
    by (simp add: simple_loop_state min_def)
qed

section \<open>Invariants of the concurrent pipeline\<close>

lemma pipe_is_Nil: "pipe_is [] g lo"
  by (simp add: pipe_is_def)

lemma pipe_is_snoc: "pipe_is (q @ [x]) g lo \<longleftrightarrow> pipe_is q g lo \<and> x = g (lo + length q)"
  by (auto simp: pipe_is_def)

lemma pipe_is_Cons: "pipe_is (x # q) g lo \<longleftrightarrow> x = g lo \<and> pipe_is q g (Suc lo)"
proof -
  have "[lo..<lo + length (x # q)] = lo # [Suc lo..<Suc lo + length q]"
    by (simp add: upt_conv_Cons del: upt_Suc)
  then show ?thesis
    unfolding pipe_is_def by auto
qed

lemma pipe_is_map: "pipe_is q g lo \<Longrightarrow> q = map g [lo..<lo + length q]"
  by (simp add: pipe_is_def)

lemma pipe_read_Some: "pipe_read q = Some (x, q') \<longleftrightarrow> q = x # q'"
  by (auto simp: pipe_read_def split: list.splits)

lemma pipe_read_None: "pipe_read q = None \<longleftrightarrow> q = []"
  by (auto simp: pipe_read_def split: list.splits)

lemma pipe_write_Some: "pipe_write d q x = Some q' \<longleftrightarrow> length q < d \<and> q' = q @ [x]"
  by (auto simp: pipe_write_def)

lemma pipe_write_None: "pipe_write d q x = None \<longleftrightarrow> d \<le> length q"
  by (auto simp: pipe_write_def)

lemmas cnt_defs = cnt_out_def cnt_bdata_def cnt_bsum_def cnt_adata_def cnt_asum_def cnt_a_def

lemma inv_init: "inv W idataBuf (init W idataBuf)"
  by (simp add: inv_def init_def cnt_defs pipe_is_Nil state_at_def)

lemma simple_loop_append:
  "prefixSumSimple_loop W s (xs @ ys) =
     (fst (prefixSumSimple_loop W (fst (prefixSumSimple_loop W s xs)) ys),
      snd (prefixSumSimple_loop W s xs) @
      snd (prefixSumSimple_loop W (fst (prefixSumSimple_loop W s xs)) ys))"
  by (induction xs arbitrary: s) (simp_all add: case_prod_beta)

lemma state_at_0: "state_at W buf 0 = 0"
  by (simp add: state_at_def)

lemma state_at_Suc:
  "k < length buf \<Longrightarrow>
   state_at W buf (Suc k) = state_at W buf k + fst (prefixSumA_tick W (buf ! k))"
  by (simp add: state_at_def take_Suc_conv_app_nth simple_loop_append case_prod_beta
      fst_simple_tick)

lemma simple_nth_out_at:
  assumes "k < length buf"
  shows "prefixSumSimple W buf ! k = out_at W buf k"
proof -
  have "buf = take k buf @ buf ! k # drop (Suc k) buf"
    using assms by (simp add: id_take_nth_drop)
  then have "prefixSumSimple W buf =
      snd (prefixSumSimple_loop W 0 (take k buf @ buf ! k # drop (Suc k) buf))"
    by (simp add: prefixSumSimple_def)
  also have "\<dots> ! k = out_at W buf k"
    using assms
    by (simp add: simple_loop_append case_prod_beta nth_append length_simple_loop
        out_at_def state_at_def)
  finally show ?thesis .
qed

lemma map_out_at: "map (out_at W buf) [0..<length buf] = prefixSumSimple W buf"
  by (rule nth_equalityI)
    (simp_all add: prefixSumSimple_def length_simple_loop simple_nth_out_at [unfolded prefixSumSimple_def])

lemma B_tick_at:
  "k < length buf \<Longrightarrow>
   prefixSumB_tick W (state_at W buf k) (buf ! k) (fst (prefixSumA_tick W (buf ! k))) =
     (state_at W buf (Suc k), out_at W buf k)"
  by (simp add: B_tick_eq state_at_Suc out_at_def)

lemma odataBuf_update:
  "k < n \<Longrightarrow>
   (map g [0..<k] @ replicate (n - k) z)[k := g k] = map g [0..<Suc k] @ replicate (n - Suc k) z"
proof -
  assume "k < n"
  then have "replicate (n - k) z = z # replicate (n - Suc k) z"
    by (metis Suc_diff_Suc replicate_Suc)
  then show ?thesis
    by (simp add: list_update_append)
qed

lemma inv_bounds:
  assumes "inv W idataBuf c"
  shows "snk_i c \<le> cnt_out c" "cnt_out c \<le> cnt_bsum c" "cnt_bsum c \<le> cnt_bdata c"
    "cnt_bdata c \<le> cnt_adata c" "cnt_bsum c \<le> cnt_asum c" "cnt_asum c \<le> cnt_a c"
    "cnt_adata c \<le> cnt_a c" "cnt_a c \<le> src_i c" "src_i c \<le> length idataBuf"
  using assms by (auto simp: inv_def cnt_defs split: a_pc.splits b_pc.splits)

lemma inv_Input2Pipe:
  assumes "inv W idataBuf c" and "fire W depth idataBuf Input2Pipe c = Some c'"
  shows "inv W idataBuf c'"
  using assms
  by (cases "a_pc c"; cases "b_pc c")
    (auto simp: inv_def cnt_defs pipe_write_Some pipe_is_snoc split: if_splits option.splits)

lemma inv_Pipe2Output:
  assumes "inv W idataBuf c" and "fire W depth idataBuf Pipe2Output c = Some c'"
  shows "inv W idataBuf c'"
  using assms
  by (cases "a_pc c"; cases "b_pc c")
    (auto simp: inv_def cnt_defs pipe_read_Some pipe_is_Cons odataBuf_update
      split: if_splits option.splits simp del: upt_Suc)

lemma inv_PrefixSumA:
  assumes "inv W idataBuf c" and "fire W depth idataBuf PrefixSumA c = Some c'"
  shows "inv W idataBuf c'"
  using assms
  by (cases "a_pc c"; cases "b_pc c")
    (auto simp: inv_def cnt_defs pipe_read_Some pipe_write_Some pipe_is_Cons pipe_is_snoc
      A_tick_eq split: if_splits option.splits prod.splits)

lemma inv_PrefixSumB:
  assumes "inv W idataBuf c" and "fire W depth idataBuf PrefixSumB c = Some c'"
  shows "inv W idataBuf c'"
proof (cases "b_pc c")
  case B_read_data
  with assms show ?thesis
    by (cases "a_pc c")
      (auto simp: inv_def cnt_defs pipe_read_Some pipe_is_Cons split: option.splits prod.splits)
next
  case (B_read_sum iflit)
  from assms(1) have "cnt_bdata c \<le> length idataBuf"
    using inv_bounds [OF assms(1)] by linarith
  with B_read_sum have lt: "cnt_out c < length idataBuf"
    by (simp add: cnt_defs)
  from assms(1) B_read_sum have fl: "iflit = idataBuf ! cnt_out c"
    and st: "sumSoFar c = state_at W idataBuf (cnt_out c)"
    by (simp_all add: inv_def cnt_defs)
  from assms(2) B_read_sum obtain partialSum q where
    q: "sumQ c = partialSum # q"
    by (auto simp: pipe_read_Some split: option.splits prod.splits)
  with assms(1) B_read_sum have ps: "partialSum = fst (prefixSumA_tick W (idataBuf ! cnt_out c))"
    by (simp add: inv_def cnt_defs pipe_is_Cons)
  have tick: "prefixSumB_tick W (sumSoFar c) iflit partialSum =
      (state_at W idataBuf (Suc (cnt_out c)), out_at W idataBuf (cnt_out c))"
    unfolding fl st ps by (rule B_tick_at [OF lt])
  from assms(2) B_read_sum q tick
  have c': "c' = c\<lparr>sumQ := q, sumSoFar := state_at W idataBuf (Suc (cnt_out c)),
                    b_pc := B_write (out_at W idataBuf (cnt_out c))\<rparr>"
    by (simp add: pipe_read_def)
  from assms(1) B_read_sum q show ?thesis
    unfolding c'
    by (cases "a_pc c") (auto simp: inv_def cnt_defs pipe_is_Cons)
next
  case (B_write oflit)
  with assms show ?thesis
    by (cases "a_pc c")
      (auto simp: inv_def cnt_defs pipe_write_Some pipe_is_snoc split: option.splits)
qed

lemma inv_fire:
  assumes "inv W idataBuf c" and "fire W depth idataBuf u c = Some c'"
  shows "inv W idataBuf c'"
  using assms
  by (cases u) (blast intro: inv_Input2Pipe inv_PrefixSumA inv_PrefixSumB inv_Pipe2Output)+

lemma inv_exec:
  "inv W idataBuf c \<Longrightarrow> exec W depth idataBuf us c = Some c' \<Longrightarrow> inv W idataBuf c'"
  by (induction us arbitrary: c) (auto split: option.splits intro: inv_fire)

lemma work_fire:
  assumes "fire W depth idataBuf u c = Some c'"
  shows "work c' = Suc (work c)"
  using assms
  by (cases u; cases "a_pc c"; cases "b_pc c")
    (auto simp: work_def cnt_defs pipe_read_Some pipe_write_Some
      split: if_splits option.splits prod.splits)

lemma work_exec:
  "exec W depth idataBuf us c = Some c' \<Longrightarrow> work c' = work c + length us"
  by (induction us arbitrary: c) (auto split: option.splits dest: work_fire)

lemma work_init: "work (init W idataBuf) = 0"
  by (simp add: work_def cnt_defs init_def)

lemma work_bound: "inv W idataBuf c \<Longrightarrow> work c \<le> 8 * length idataBuf"
  using inv_bounds [of W idataBuf c] by (simp add: work_def)

lemma work_full:
  "inv W idataBuf c \<Longrightarrow> work c = 8 * length idataBuf \<longleftrightarrow> snk_i c = length idataBuf"
  using inv_bounds [of W idataBuf c] by (auto simp: work_def)

lemma inv_done:
  assumes "inv W idataBuf c" and "snk_i c = length idataBuf"
  shows "src_i c = length idataBuf" "inQ c = []" "sumQ c = []" "dataQ c = []"
    "outQ c = []" "a_pc c = A_read" "b_pc c = B_read_data"
    "odataBuf c = prefixSumSimple W idataBuf"
    "sumSoFar c = prefixSumSimple_state W idataBuf"
proof -
  have b: "snk_i c \<le> cnt_out c" "cnt_out c \<le> cnt_bsum c" "cnt_bsum c \<le> cnt_bdata c"
    "cnt_bdata c \<le> cnt_adata c" "cnt_bsum c \<le> cnt_asum c" "cnt_asum c \<le> cnt_a c"
    "cnt_adata c \<le> cnt_a c" "cnt_a c \<le> src_i c" "src_i c \<le> length idataBuf"
    using inv_bounds [OF assms(1)] by simp_all
  with assms(2) have e: "cnt_out c = snk_i c" "cnt_bsum c = snk_i c" "cnt_bdata c = snk_i c"
    "cnt_adata c = snk_i c" "cnt_asum c = snk_i c" "cnt_a c = snk_i c" "src_i c = snk_i c"
    by simp_all
  from e(1) show o: "outQ c = []" by (simp add: cnt_defs)
  from e(1,3) show bp: "b_pc c = B_read_data"
    by (cases "b_pc c") (simp_all add: cnt_defs)
  from e(3,4) show "dataQ c = []" by (simp add: cnt_defs)
  from e(2,5) show "sumQ c = []" by (simp add: cnt_defs)
  from e(4,6) show "a_pc c = A_read"
    by (cases "a_pc c") (simp_all add: cnt_defs)
  from e(7) assms(2) show s: "src_i c = length idataBuf" by simp
  from assms(1) e(6) s assms(2) show "inQ c = []" by (simp add: inv_def)
  from assms show "odataBuf c = prefixSumSimple W idataBuf"
    by (simp add: inv_def map_out_at)
  from assms(1) e(2) assms(2) show "sumSoFar c = prefixSumSimple_state W idataBuf"
    by (simp add: inv_def state_at_def prefixSumSimple_state_def)
qed

lemma inv_prefix:
  assumes "inv W idataBuf c"
  shows "take (snk_i c) (odataBuf c) = take (snk_i c) (prefixSumSimple W idataBuf)"
proof -
  have le: "snk_i c \<le> length idataBuf"
    using inv_bounds [OF assms] by linarith
  have "take (snk_i c) (odataBuf c) = map (out_at W idataBuf) [0..<snk_i c]"
    using assms by (simp add: inv_def)
  also have "\<dots> = take (snk_i c) (map (out_at W idataBuf) [0..<length idataBuf])"
    using le by (simp add: take_map take_upt)
  finally show ?thesis by (simp add: map_out_at)
qed

lemma fire_Input2Pipe_None:
  "fire W depth idataBuf Input2Pipe c = None \<longleftrightarrow>
     length idataBuf \<le> src_i c \<or> depth InPipe \<le> length (inQ c)"
  by (auto simp: pipe_write_def split: option.splits if_splits)

lemma fire_Pipe2Output_None:
  "fire W depth idataBuf Pipe2Output c = None \<longleftrightarrow>
     length idataBuf \<le> snk_i c \<or> outQ c = []"
  by (auto simp: pipe_read_def split: option.splits if_splits list.splits)

lemma fire_PrefixSumA_None:
  "fire W depth idataBuf PrefixSumA c = None \<longleftrightarrow>
     (case a_pc c of
        A_read \<Rightarrow> inQ c = []
      | A_write_sum partialSum iflit \<Rightarrow> depth SumPipe \<le> length (sumQ c)
      | A_write_data iflit \<Rightarrow> depth DataPipe \<le> length (dataQ c))"
  by (auto simp: pipe_read_def pipe_write_def
      split: a_pc.splits option.splits if_splits list.splits prod.splits)

lemma fire_PrefixSumB_None:
  "fire W depth idataBuf PrefixSumB c = None \<longleftrightarrow>
     (case b_pc c of
        B_read_data \<Rightarrow> dataQ c = []
      | B_read_sum iflit \<Rightarrow> sumQ c = []
      | B_write oflit \<Rightarrow> depth OutPipe \<le> length (outQ c))"
  by (auto simp: pipe_read_def pipe_write_def
      split: b_pc.splits option.splits if_splits list.splits prod.splits)

lemma progress:
  assumes "inv W idataBuf c" and "\<forall>p. 0 < depth p" and "snk_i c < length idataBuf"
  shows "\<exists>u. fire W depth idataBuf u c \<noteq> None"
proof (rule ccontr)
  assume "\<not> (\<exists>u. fire W depth idataBuf u c \<noteq> None)"
  then have stuck: "\<And>u. fire W depth idataBuf u c = None" by simp
  have d: "0 < depth InPipe" "0 < depth SumPipe" "0 < depth DataPipe" "0 < depth OutPipe"
    using assms(2) by simp_all
  from stuck [of Pipe2Output, unfolded fire_Pipe2Output_None] assms(3)
  have o: "outQ c = []" by simp
  from assms(1) have i3: "cnt_asum c + (case a_pc c of A_write_sum _ _ \<Rightarrow> 1 | _ \<Rightarrow> 0) = cnt_a c"
    and i1: "cnt_a c + length (inQ c) = src_i c"
    by (simp_all add: inv_def)
  note sa = stuck [of PrefixSumA, unfolded fire_PrefixSumA_None]
  note sb = stuck [of PrefixSumB, unfolded fire_PrefixSumB_None]
  note si = stuck [of Input2Pipe, unfolded fire_Input2Pipe_None]
  show False
  proof (cases "b_pc c")
    case B_read_data
    with sb have dp: "dataQ c = []" by simp
    show False
    proof (cases "a_pc c")
      case A_read
      with sa have ip: "inQ c = []" by simp
      with i1 A_read B_read_data dp o have "src_i c = snk_i c"
        by (simp add: cnt_defs)
      with si assms(3) ip d show False by simp
    next
      case (A_write_sum ps f)
      with i3 B_read_data dp o have "sumQ c = []"
        by (simp add: cnt_defs)
      with sa A_write_sum d show False by simp
    next
      case (A_write_data f)
      with sa dp d show False by simp
    qed
  next
    case (B_read_sum f)
    with sb have sp: "sumQ c = []" by simp
    show False
    proof (cases "a_pc c")
      case A_read
      with i3 B_read_sum sp show False by (simp add: cnt_defs)
    next
      case (A_write_sum ps f')
      with sa sp d show False by simp
    next
      case (A_write_data f')
      with i3 B_read_sum sp show False by (simp add: cnt_defs)
    qed
  next
    case (B_write oflit)
    with sb o d show False by simp
  qed
qed

section \<open>Runs of the concurrent pipeline\<close>

declare fire.simps [simp del]

lemma drain_exec:
  "drain W depth idataBuf fuel c = (us, c') \<Longrightarrow> exec W depth idataBuf us c = Some c'"
proof (induction fuel arbitrary: c us c')
  case 0
  then show ?case by simp
next
  case (Suc fuel)
  show ?case
  proof (cases "List.find (\<lambda>u. fire W depth idataBuf u c \<noteq> None)
             [Pipe2Output, PrefixSumB, PrefixSumA, Input2Pipe]")
    case None
    with Suc.prems show ?thesis by simp
  next
    case (Some u)
    show ?thesis
    proof (cases "fire W depth idataBuf u c")
      case None
      with Some Suc.prems show ?thesis by simp
    next
      case (Some c1)
      obtain us1 c2 where r: "drain W depth idataBuf fuel c1 = (us1, c2)"
        by (cases "drain W depth idataBuf fuel c1")
      from Suc.IH [OF r] have "exec W depth idataBuf us1 c1 = Some c2" .
      with Suc.prems \<open>List.find _ _ = Some u\<close> Some r show ?thesis
        by auto
    qed
  qed
qed

lemma units_UNIV: "set [Pipe2Output, PrefixSumB, PrefixSumA, Input2Pipe] = UNIV"
proof -
  have "u \<in> set [Pipe2Output, PrefixSumB, PrefixSumA, Input2Pipe]" for u
    by (cases u) simp_all
  then show ?thesis by blast
qed

lemma find_unit_None:
  "List.find (\<lambda>u. fire W depth idataBuf u c \<noteq> None)
     [Pipe2Output, PrefixSumB, PrefixSumA, Input2Pipe] = None \<longleftrightarrow>
   (\<forall>u. fire W depth idataBuf u c = None)"
  unfolding find_None_iff units_UNIV by (simp del: fire.simps)

lemma drain_complete:
  assumes "\<forall>p. 0 < depth p"
  shows "inv W idataBuf c \<Longrightarrow> 8 * length idataBuf \<le> work c + fuel \<Longrightarrow>
         snk_i (snd (drain W depth idataBuf fuel c)) = length idataBuf"
proof (induction fuel arbitrary: c)
  case 0
  then have "work c = 8 * length idataBuf"
    using work_bound [of W idataBuf c] by simp
  with 0 show ?case by (simp add: work_full)
next
  case (Suc fuel)
  show ?case
  proof (cases "List.find (\<lambda>u. fire W depth idataBuf u c \<noteq> None)
             [Pipe2Output, PrefixSumB, PrefixSumA, Input2Pipe]")
    case None
    then have "\<forall>u. fire W depth idataBuf u c = None"
      unfolding find_unit_None .
    then have stuck: "\<And>u. fire W depth idataBuf u c = None" by blast
    have "\<not> snk_i c < length idataBuf"
    proof
      assume "snk_i c < length idataBuf"
      from progress [OF Suc.prems(1) assms this]
      obtain u where "fire W depth idataBuf u c \<noteq> None" by blast
      with stuck [of u] show False by blast
    qed
    moreover have "snk_i c \<le> length idataBuf"
      using inv_bounds [OF Suc.prems(1)] by linarith
    ultimately show ?thesis using None by simp
  next
    case (Some u)
    then have "fire W depth idataBuf u c \<noteq> None"
      unfolding find_Some_iff by blast
    then obtain c1 where f: "fire W depth idataBuf u c = Some c1" by blast
    have i1: "inv W idataBuf c1" by (rule inv_fire [OF Suc.prems(1) f])
    have "8 * length idataBuf \<le> work c1 + fuel"
      using work_fire [OF f] Suc.prems(2) by simp
    from Suc.IH [OF i1 this] Some f show ?thesis
      by (simp add: case_prod_beta)
  qed
qed

lemma prefixSumAB_simple: "prefixSumAB W fs = snd (prefixSumSimple_loop W 0 fs)"
  using B_loop_after_A [of W 0 fs]
  by (simp add: prefixSumAB_def prefixSumB_def case_prod_beta)

lemma reach_inv:
  "exec W depth idataBuf us (init W idataBuf) = Some c \<Longrightarrow> inv W idataBuf c"
  by (rule inv_exec [OF inv_init])

lemma reach_work:
  "exec W depth idataBuf us (init W idataBuf) = Some c \<Longrightarrow> work c = length us"
  using work_exec [of W depth idataBuf us "init W idataBuf" c] by (simp add: work_init)

lemma inv_odataBuf_eq:
  "inv W idataBuf c \<Longrightarrow> inv W idataBuf c' \<Longrightarrow> snk_i c = snk_i c' \<Longrightarrow>
   odataBuf c = odataBuf c'"
  by (simp add: inv_def)

section \<open>The architectural state of prefixSumB\<close>

text \<open>
  C3. prefixSumB starts with \<open>sumSoFar = 0\<close>. In iteration \<open>k\<close> it reads a flit from
  the data pipe and a partial sum from the sum pipe; both were written by prefixSumA for
  input flit \<open>k\<close>. It fills the output flit with the per-lane loop of prefixSumSimple
  started from \<open>sumSoFar\<close>, adds the partial sum to \<open>sumSoFar\<close>, and writes the flit.
  The pairing holds under every schedule of the concurrent pipeline: whenever prefixSumB
  holds a flit and takes the next partial sum from the sum pipe, that partial sum is the
  one prefixSumA computed from this flit.
\<close>

theorem stage_B_tick:
  assumes "prefixSumA W inPipe = (sumPipe, dataPipe)" and "k < length inPipe"
  shows "prefixSumB_state W [] [] = 0
       \<and> dataPipe ! k = inPipe ! k
       \<and> sumPipe ! k = fst (prefixSumA_tick W (inPipe ! k))
       \<and> prefixSumB W sumPipe dataPipe ! k =
           snd (prefixSumSimple_tick W
             (prefixSumB_state W (take k sumPipe) (take k dataPipe)) (dataPipe ! k))
       \<and> prefixSumB_state W (take (Suc k) sumPipe) (take (Suc k) dataPipe) =
           prefixSumB_state W (take k sumPipe) (take k dataPipe) + sumPipe ! k
       \<and> prefixSumB_tick W s iflit partialSum =
           (s + partialSum, snd (prefixSumSimple_tick W s iflit))
       \<and> (\<forall>depth us c iflit' partialSum' q.
            exec W depth inPipe us (init W inPipe) = Some c \<and>
            b_pc c = B_read_sum iflit' \<and> sumQ c = partialSum' # q \<longrightarrow>
            iflit' = inPipe ! cnt_bsum c \<and> partialSum' = fst (prefixSumA_tick W iflit'))"
proof -
  have pairing: "iflit' = inPipe ! cnt_bsum c \<and> partialSum' = fst (prefixSumA_tick W iflit')"
    if "exec W depth inPipe us (init W inPipe) = Some c" "b_pc c = B_read_sum iflit'"
      "sumQ c = partialSum' # q" for depth us c iflit' partialSum' q
    using reach_inv [OF that(1)] that(2,3)
    by (simp add: inv_def cnt_defs pipe_is_Cons)
  from assms(1) have sp: "sumPipe = map (\<lambda>f. fst (prefixSumA_tick W f)) inPipe"
    and dp: "dataPipe = inPipe"
    by (auto simp: prefixSumA_eq)
  from assms(2) have ks: "k < length sumPipe" and kd: "k < length dataPipe"
    by (simp_all add: sp dp)
  have "prefixSumB W sumPipe dataPipe ! k =
           snd (prefixSumSimple_tick W
             (prefixSumB_state W (take k sumPipe) (take k dataPipe)) (dataPipe ! k))"
    unfolding prefixSumB_def prefixSumB_state_def by (rule B_loop_nth [OF ks kd])
  moreover have "prefixSumB_state W (take (Suc k) sumPipe) (take (Suc k) dataPipe) =
           prefixSumB_state W (take k sumPipe) (take k dataPipe) + sumPipe ! k"
    unfolding prefixSumB_state_def by (simp add: B_loop_Suc_take [OF ks kd])
  moreover have "prefixSumB_state W [] [] = 0"
    by (simp add: prefixSumB_state_def)
  moreover have "dataPipe ! k = inPipe ! k" by (simp add: dp)
  moreover have "sumPipe ! k = fst (prefixSumA_tick W (inPipe ! k))"
    using assms(2) by (simp add: sp)
  ultimately show ?thesis
    using pairing by (simp add: B_tick_eq del: exec.simps) blast
qed

theorem stage_B_tick_witness:
  "prefixSumA 2 [\<lparr>element = [1, 2]\<rparr>, \<lparr>element = [3, 4]\<rparr>] =
     ([3, 7], [\<lparr>element = [1, 2]\<rparr>, \<lparr>element = [3, 4]\<rparr>])
   \<and> (1::nat) < length [\<lparr>element = [1, 2]\<rparr>, \<lparr>element = [3, 4]\<rparr>]
   \<and> prefixSumB 2 [3, 7] [\<lparr>element = [1, 2]\<rparr>, \<lparr>element = [3, 4]\<rparr>] ! 1 =
       snd (prefixSumSimple_tick 2 3 \<lparr>element = [3, 4]\<rparr>)
   \<and> prefixSumB_state 2 [3, 7] [\<lparr>element = [1, 2]\<rparr>, \<lparr>element = [3, 4]\<rparr>] = 10"
proof -
  have h1: "prefixSumA 2 [\<lparr>element = [1, 2]\<rparr>, \<lparr>element = [3, 4]\<rparr>] =
     ([3, 7], [\<lparr>element = [1, 2]\<rparr>, \<lparr>element = [3, 4]\<rparr>])"
    by (simp add: prefixSumA_tick_def upt_0_2)
  have h2: "(1::nat) < length [\<lparr>element = [1, 2]\<rparr>, \<lparr>element = [3, 4]\<rparr>]"
    by simp
  have st: "prefixSumB_state 2 (take 1 [3, 7]) (take 1 [\<lparr>element = [1, 2]\<rparr>, \<lparr>element = [3, 4]\<rparr>]) = 3"
    by (simp add: prefixSumB_state_def B_tick_eq)
  show ?thesis
    using stage_B_tick [OF h1 h2, of 0 "\<lparr>element = []\<rparr>" 0] h1 st
    by (simp add: numeral_2_eq_2 [symmetric])
qed

text \<open>
  C5. After prefixSumB has processed its first \<open>k\<close> pairs of a flit and a partial sum,
  \<open>sumSoFar\<close> is the sum modulo \<open>2 ^ 64\<close> of all elements of the first \<open>k\<close> input
  flits. That is also the value of \<open>prefixSum\<close> in prefixSumSimple after the same
  \<open>k\<close> flits, and the last element of the \<open>k\<close>-th output flit. In every state
  that the concurrent pipeline reaches, \<open>sumSoFar\<close> is that sum for the number of
  partial sums that prefixSumB has read.
\<close>

theorem sumSoFar_invariant:
  assumes "prefixSumA W inPipe = (sumPipe, dataPipe)" and "k \<le> length inPipe"
  shows "prefixSumB_state W (take k sumPipe) (take k dataPipe) =
           (\<Sum>j<W * k. stream_element W inPipe j)
       \<and> unat (prefixSumB_state W (take k sumPipe) (take k dataPipe)) =
           (\<Sum>j<W * k. unat (stream_element W inPipe j)) mod 2 ^ 64
       \<and> prefixSumB_state W (take k sumPipe) (take k dataPipe) =
           prefixSumSimple_state W (take k inPipe)
       \<and> (0 < k \<and> 0 < W \<longrightarrow>
            prefixSumB_state W (take k sumPipe) (take k dataPipe) =
              element (prefixSumB W sumPipe dataPipe ! (k - 1)) ! (W - 1))
       \<and> (\<forall>depth us c. exec W depth inPipe us (init W inPipe) = Some c \<longrightarrow>
            sumSoFar c = (\<Sum>j<W * cnt_bsum c. stream_element W inPipe j))"
proof -
  have reach: "sumSoFar c = (\<Sum>j<W * cnt_bsum c. stream_element W inPipe j)"
    if "exec W depth inPipe us (init W inPipe) = Some c" for depth us c
  proof -
    have i: "inv W inPipe c" using that by (rule reach_inv)
    have "cnt_bsum c \<le> length inPipe"
      using inv_bounds [OF i] by linarith
    from simple_state_take [OF this, of W 0] i show ?thesis
      by (simp add: inv_def state_at_def)
  qed
  from assms(1) have sp: "sumPipe = fst (prefixSumA W inPipe)"
    and dp: "dataPipe = snd (prefixSumA W inPipe)"
    by simp_all
  have eq: "prefixSumB_state W (take k sumPipe) (take k dataPipe) =
            prefixSumSimple_state W (take k inPipe)"
    unfolding prefixSumB_state_def prefixSumSimple_state_def sp dp
    by (rule B_state_after_A)
  have val: "prefixSumSimple_state W (take k inPipe) = (\<Sum>j<W * k. stream_element W inPipe j)"
    unfolding prefixSumSimple_state_def
    using simple_state_take [OF assms(2), of W 0] by simp
  have last: "(\<Sum>j<W * k. stream_element W inPipe j) =
              element (prefixSumB W sumPipe dataPipe ! (k - 1)) ! (W - 1)"
    if "0 < k" "0 < W"
  proof -
    have outs: "prefixSumB W sumPipe dataPipe = snd (prefixSumSimple_loop W 0 inPipe)"
      unfolding prefixSumB_def sp dp by (simp add: B_loop_after_A)
    have idx: "Suc (W * (k - 1) + (W - 1)) = W * k"
      using that by (cases k; cases W) simp_all
    then have lt: "W * (k - 1) + (W - 1) < W * length inPipe"
      using assms(2) that
      by (metis Suc_le_lessD Suc_leI mult_le_mono2 le_trans lessI)
    have "element (prefixSumB W sumPipe dataPipe ! (k - 1)) ! (W - 1) =
          stream_element W (prefixSumB W sumPipe dataPipe) (W * (k - 1) + (W - 1))"
      using that stream_element_flit [of "W - 1" W "prefixSumB W sumPipe dataPipe" "k - 1"]
      by simp
    also have "\<dots> = (\<Sum>j\<le>W * (k - 1) + (W - 1). stream_element W inPipe j)"
      unfolding outs using simple_loop_stream [OF lt, of 0] by simp
    also have "{..W * (k - 1) + (W - 1)} = {..<W * k}"
      unfolding lessThan_Suc_atMost [symmetric] idx ..
    finally show ?thesis by simp
  qed
  from eq val last have "prefixSumB_state W (take k sumPipe) (take k dataPipe) =
           (\<Sum>j<W * k. stream_element W inPipe j)
       \<and> unat (prefixSumB_state W (take k sumPipe) (take k dataPipe)) =
           (\<Sum>j<W * k. unat (stream_element W inPipe j)) mod 2 ^ 64
       \<and> prefixSumB_state W (take k sumPipe) (take k dataPipe) =
           prefixSumSimple_state W (take k inPipe)
       \<and> (0 < k \<and> 0 < W \<longrightarrow>
            prefixSumB_state W (take k sumPipe) (take k dataPipe) =
              element (prefixSumB W sumPipe dataPipe ! (k - 1)) ! (W - 1))"
    by (simp add: unat_sum_mod)
  with reach show ?thesis by blast
qed

theorem sumSoFar_invariant_witness:
  "prefixSumA 2 [\<lparr>element = [1, 2]\<rparr>, \<lparr>element = [3, 4]\<rparr>] =
     ([3, 7], [\<lparr>element = [1, 2]\<rparr>, \<lparr>element = [3, 4]\<rparr>])
   \<and> (2::nat) \<le> length [\<lparr>element = [1, 2]\<rparr>, \<lparr>element = [3, 4]\<rparr>]
   \<and> (0::nat) < 2
   \<and> prefixSumB_state 2 [3, 7] [\<lparr>element = [1, 2]\<rparr>, \<lparr>element = [3, 4]\<rparr>] =
       element (prefixSumB 2 [3, 7] [\<lparr>element = [1, 2]\<rparr>, \<lparr>element = [3, 4]\<rparr>] ! 1) ! 1
   \<and> prefixSumB_state 2 [3, 7] [\<lparr>element = [1, 2]\<rparr>, \<lparr>element = [3, 4]\<rparr>] = 10"
proof -
  have h1: "prefixSumA 2 [\<lparr>element = [1, 2]\<rparr>, \<lparr>element = [3, 4]\<rparr>] =
     ([3, 7], [\<lparr>element = [1, 2]\<rparr>, \<lparr>element = [3, 4]\<rparr>])"
    by (simp add: prefixSumA_tick_def upt_0_2)
  have h2: "(2::nat) \<le> length [\<lparr>element = [1, 2]\<rparr>, \<lparr>element = [3, 4]\<rparr>]"
    by simp
  have v: "prefixSumB_state 2 [3, 7] [\<lparr>element = [1, 2]\<rparr>, \<lparr>element = [3, 4]\<rparr>] = 10"
    by (simp add: prefixSumB_state_def B_tick_eq)
  show ?thesis
    using sumSoFar_invariant [OF h1 h2] h1 v by simp
qed

section \<open>Determinism and completion\<close>

text \<open>
  C6. The output of the pipeline is a function of the input stream alone. Whatever the
  order in which the runtime lets the four units move, and whatever the depths of the
  pipes, the flits collected so far are the first flits of \<open>prefixSumAB W idataBuf\<close>;
  two executions on the same input that have collected the same number of flits hold the
  same output buffer, and two complete executions end with the same output and the same
  \<open>sumSoFar\<close>.
\<close>

theorem output_deterministic:
  assumes "exec W depth idataBuf us (init W idataBuf) = Some c"
    and "exec W depth' idataBuf us' (init W idataBuf) = Some c'"
  shows "take (snk_i c) (odataBuf c) = take (snk_i c) (prefixSumAB W idataBuf)
       \<and> (snk_i c = snk_i c' \<longrightarrow> odataBuf c = odataBuf c')
       \<and> (snk_i c = length idataBuf \<and> snk_i c' = length idataBuf \<longrightarrow>
            odataBuf c = prefixSumAB W idataBuf \<and> odataBuf c' = prefixSumAB W idataBuf \<and>
            sumSoFar c' = sumSoFar c)"
proof -
  have i: "inv W idataBuf c" and i': "inv W idataBuf c'"
    using assms by (auto intro: reach_inv)
  have ab: "prefixSumAB W idataBuf = prefixSumSimple W idataBuf"
    by (simp add: prefixSumAB_simple prefixSumSimple_def)
  from inv_prefix [OF i] inv_odataBuf_eq [OF i i'] inv_done(8,9) [OF i] inv_done(8,9) [OF i']
  show ?thesis
    by (simp add: ab)
qed

text \<open>
  C7, amended. When every pipe has depth at least 1, a run on a stream of
  \<open>n = length idataBuf\<close> flits always completes. Every admissible schedule has at most
  \<open>8 * n\<close> steps; as long as Pipe2Output has collected fewer than \<open>n\<close> flits some unit
  can move; Pipe2Output has collected all \<open>n\<close> flits exactly when \<open>8 * n\<close> steps have
  been made, and then the output buffer holds the prefix sums, Input2Pipe and Pipe2Output
  have finished their loops, and prefixSumA and prefixSumB, which loop forever, wait in
  the reads of their empty input pipes. The back-to-front schedule reaches that state
  with fuel \<open>8 * n\<close>.
\<close>

theorem bounded_run_completes:
  assumes "\<forall>p. 0 < depth p"
    and "exec W depth idataBuf us (init W idataBuf) = Some c"
  shows "length us \<le> 8 * length idataBuf
       \<and> snk_i c \<le> length idataBuf
       \<and> (snk_i c < length idataBuf \<longrightarrow> (\<exists>u. fire W depth idataBuf u c \<noteq> None))
       \<and> (snk_i c = length idataBuf \<longleftrightarrow> length us = 8 * length idataBuf)
       \<and> (snk_i c = length idataBuf \<longrightarrow>
            odataBuf c = prefixSumAB W idataBuf \<and>
            finished idataBuf Input2Pipe c \<and> finished idataBuf Pipe2Output c \<and>
            blocked W depth idataBuf PrefixSumA c \<and> a_pc c = A_read \<and> inQ c = [] \<and>
            blocked W depth idataBuf PrefixSumB c \<and> b_pc c = B_read_data \<and> dataQ c = [])
       \<and> (case drain W depth idataBuf (8 * length idataBuf) (init W idataBuf) of
            (us', c') \<Rightarrow>
              exec W depth idataBuf us' (init W idataBuf) = Some c' \<and>
              snk_i c' = length idataBuf)"
proof -
  have i: "inv W idataBuf c" using assms(2) by (rule reach_inv)
  have w: "work c = length us" using assms(2) by (rule reach_work)
  have ab: "prefixSumAB W idataBuf = prefixSumSimple W idataBuf"
    by (simp add: prefixSumAB_simple prefixSumSimple_def)
  have 1: "length us \<le> 8 * length idataBuf"
    using work_bound [OF i] w by simp
  have 2: "snk_i c \<le> length idataBuf"
    using inv_bounds [OF i] by linarith
  have 3: "snk_i c < length idataBuf \<longrightarrow> (\<exists>u. fire W depth idataBuf u c \<noteq> None)"
    using progress [OF i assms(1)] by blast
  have 4: "snk_i c = length idataBuf \<longleftrightarrow> length us = 8 * length idataBuf"
    using work_full [OF i] w by simp
  have 5: "odataBuf c = prefixSumAB W idataBuf \<and>
            finished idataBuf Input2Pipe c \<and> finished idataBuf Pipe2Output c \<and>
            blocked W depth idataBuf PrefixSumA c \<and> a_pc c = A_read \<and> inQ c = [] \<and>
            blocked W depth idataBuf PrefixSumB c \<and> b_pc c = B_read_data \<and> dataQ c = []"
    if d: "snk_i c = length idataBuf"
    using inv_done [OF i d] d
    by (simp add: ab blocked_def fire_PrefixSumA_None fire_PrefixSumB_None)
  obtain us' c' where r: "drain W depth idataBuf (8 * length idataBuf) (init W idataBuf) = (us', c')"
    by (cases "drain W depth idataBuf (8 * length idataBuf) (init W idataBuf)")
  have 6: "exec W depth idataBuf us' (init W idataBuf) = Some c'"
    using r by (rule drain_exec)
  have 7: "snk_i c' = length idataBuf"
    using drain_complete [OF assms(1) inv_init, where W = W and idataBuf = idataBuf
        and fuel = "8 * length idataBuf"] r
    by (simp add: work_init)
  from 1 2 3 4 5 6 7 show ?thesis
    by (simp add: r)
qed

text \<open>
  C10, amended. main.cpp has no check of the pipe depths and no configuration error.
  Whatever the depths, main starts the pipeline in the same initial state when the device
  supports USM allocations, its only start-up check; the four pipes are declared with
  depth \<open>DEFAULT_PIPE_DEPTH = 4\<close>, which is positive.
\<close>

theorem depth_not_checked:
  "main_setup True W depth idataBuf = Started (init W idataBuf)
   \<and> main_setup False W depth idataBuf = Terminated
   \<and> pipe_depth p = 4 \<and> 0 < pipe_depth p"
  by (simp add: main_setup_def pipe_depth_def DEFAULT_PIPE_DEPTH_def)

section \<open>Concrete runs\<close>

lemma STRM_WIDTH_8: "STRM_WIDTH = 8"
  by (simp add: STRM_WIDTH_def sizeof_Element_def)

lemma list_update_numeral:
  "(x # xs)[numeral n := y] = x # xs[pred_numeral n := y]"
  by (simp add: numeral_eq_Suc)

lemma B_lane_pair:
  "prefixSumB_lane iflit i (p, ofl) =
     (p + element iflit ! i, ofl\<lparr>element := (element ofl)[i := p + element iflit ! i]\<rparr>)"
  by (simp add: prefixSumB_lane_def Let_def)

lemmas tick_eval = prefixSumA_tick_def prefixSumB_tick_def prefixSumSimple_tick_def
  B_lane_pair simple_lane_pair fresh_flit_def replicate_numeral list_update_numeral

lemma A_tick_8:
  "prefixSumA_tick 8 \<lparr>element = [1, 2, 3, 4, 5, 6, 7, 8]\<rparr> =
     (36, \<lparr>element = [1, 2, 3, 4, 5, 6, 7, 8]\<rparr>)"
  by (simp add: tick_eval upt_0_8)

lemma B_tick_8:
  "prefixSumB_tick 8 0 \<lparr>element = [1, 2, 3, 4, 5, 6, 7, 8]\<rparr> 36 =
     (36, \<lparr>element = [1, 3, 6, 10, 15, 21, 28, 36]\<rparr>)"
  by (simp add: tick_eval upt_0_8)

lemma simple_tick_8:
  "prefixSumSimple_tick 8 0 \<lparr>element = [1, 2, 3, 4, 5, 6, 7, 8]\<rparr> =
     (36, \<lparr>element = [1, 3, 6, 10, 15, 21, 28, 36]\<rparr>)"
  by (simp add: tick_eval upt_0_8)

lemmas run_eval = fire.simps init_def pipe_read_def pipe_write_def pipe_depth_def
  DEFAULT_PIPE_DEPTH_def zero_flit_def replicate_numeral

lemma run_one_flit:
  "exec 8 pipe_depth [\<lparr>element = [1, 2, 3, 4, 5, 6, 7, 8]\<rparr>]
     [Input2Pipe, PrefixSumA, PrefixSumA, PrefixSumA, PrefixSumB, PrefixSumB, PrefixSumB,
      Pipe2Output]
     (init 8 [\<lparr>element = [1, 2, 3, 4, 5, 6, 7, 8]\<rparr>]) =
   Some \<lparr>src_i = 1, inQ = [], a_pc = A_read, sumQ = [], dataQ = [], b_pc = B_read_data,
         sumSoFar = 36, outQ = [], snk_i = 1,
         odataBuf = [\<lparr>element = [1, 3, 6, 10, 15, 21, 28, 36]\<rparr>]\<rparr>"
  by (simp add: run_eval A_tick_8 B_tick_8)

lemma A_tick_2a: "prefixSumA_tick 2 \<lparr>element = [1, 2]\<rparr> = (3, \<lparr>element = [1, 2]\<rparr>)"
  by (simp add: tick_eval upt_0_2)

lemma A_tick_2b: "prefixSumA_tick 2 \<lparr>element = [3, 4]\<rparr> = (7, \<lparr>element = [3, 4]\<rparr>)"
  by (simp add: tick_eval upt_0_2)

lemma B_tick_2a: "prefixSumB_tick 2 0 \<lparr>element = [1, 2]\<rparr> 3 = (3, \<lparr>element = [1, 3]\<rparr>)"
  by (simp add: tick_eval upt_0_2)

lemma B_tick_2b: "prefixSumB_tick 2 3 \<lparr>element = [3, 4]\<rparr> 7 = (10, \<lparr>element = [6, 10]\<rparr>)"
  by (simp add: tick_eval upt_0_2)

lemma run_two_flits:
  "exec 2 pipe_depth [\<lparr>element = [1, 2]\<rparr>, \<lparr>element = [3, 4]\<rparr>]
     [Input2Pipe, PrefixSumA, PrefixSumA, PrefixSumA, PrefixSumB, PrefixSumB, PrefixSumB,
      Pipe2Output, Input2Pipe, PrefixSumA, PrefixSumA, PrefixSumA, PrefixSumB, PrefixSumB,
      PrefixSumB, Pipe2Output]
     (init 2 [\<lparr>element = [1, 2]\<rparr>, \<lparr>element = [3, 4]\<rparr>]) =
   Some \<lparr>src_i = 2, inQ = [], a_pc = A_read, sumQ = [], dataQ = [], b_pc = B_read_data,
         sumSoFar = 10, outQ = [], snk_i = 2,
         odataBuf = [\<lparr>element = [1, 3]\<rparr>, \<lparr>element = [6, 10]\<rparr>]\<rparr>"
  by (simp add: run_eval A_tick_2a A_tick_2b B_tick_2a B_tick_2b)

lemma run_two_flits_overlapped:
  "exec 2 pipe_depth [\<lparr>element = [1, 2]\<rparr>, \<lparr>element = [3, 4]\<rparr>]
     [Input2Pipe, Input2Pipe, PrefixSumA, PrefixSumA, PrefixSumA, PrefixSumB, PrefixSumA,
      PrefixSumA, PrefixSumB, PrefixSumA, PrefixSumB, PrefixSumB, PrefixSumB, Pipe2Output,
      PrefixSumB, Pipe2Output]
     (init 2 [\<lparr>element = [1, 2]\<rparr>, \<lparr>element = [3, 4]\<rparr>]) =
   Some \<lparr>src_i = 2, inQ = [], a_pc = A_read, sumQ = [], dataQ = [], b_pc = B_read_data,
         sumSoFar = 10, outQ = [], snk_i = 2,
         odataBuf = [\<lparr>element = [1, 3]\<rparr>, \<lparr>element = [6, 10]\<rparr>]\<rparr>"
  by (simp add: run_eval A_tick_2a A_tick_2b B_tick_2a B_tick_2b)

lemma pipe_depth_pos: "\<forall>p. 0 < pipe_depth p"
  by (simp add: pipe_depth_def DEFAULT_PIPE_DEPTH_def)

theorem output_deterministic_witness:
  "exec 2 pipe_depth [\<lparr>element = [1, 2]\<rparr>, \<lparr>element = [3, 4]\<rparr>]
     [Input2Pipe, PrefixSumA, PrefixSumA, PrefixSumA, PrefixSumB, PrefixSumB, PrefixSumB,
      Pipe2Output, Input2Pipe, PrefixSumA, PrefixSumA, PrefixSumA, PrefixSumB, PrefixSumB,
      PrefixSumB, Pipe2Output]
     (init 2 [\<lparr>element = [1, 2]\<rparr>, \<lparr>element = [3, 4]\<rparr>]) =
   Some \<lparr>src_i = 2, inQ = [], a_pc = A_read, sumQ = [], dataQ = [], b_pc = B_read_data,
         sumSoFar = 10, outQ = [], snk_i = 2,
         odataBuf = [\<lparr>element = [1, 3]\<rparr>, \<lparr>element = [6, 10]\<rparr>]\<rparr>
   \<and> exec 2 pipe_depth [\<lparr>element = [1, 2]\<rparr>, \<lparr>element = [3, 4]\<rparr>]
     [Input2Pipe, Input2Pipe, PrefixSumA, PrefixSumA, PrefixSumA, PrefixSumB, PrefixSumA,
      PrefixSumA, PrefixSumB, PrefixSumA, PrefixSumB, PrefixSumB, PrefixSumB, Pipe2Output,
      PrefixSumB, Pipe2Output]
     (init 2 [\<lparr>element = [1, 2]\<rparr>, \<lparr>element = [3, 4]\<rparr>]) =
   Some \<lparr>src_i = 2, inQ = [], a_pc = A_read, sumQ = [], dataQ = [], b_pc = B_read_data,
         sumSoFar = 10, outQ = [], snk_i = 2,
         odataBuf = [\<lparr>element = [1, 3]\<rparr>, \<lparr>element = [6, 10]\<rparr>]\<rparr>
   \<and> prefixSumAB 2 [\<lparr>element = [1, 2]\<rparr>, \<lparr>element = [3, 4]\<rparr>] = [\<lparr>element = [1, 3]\<rparr>, \<lparr>element = [6, 10]\<rparr>]"
proof -
  have "snk_i c = length buf \<and> snk_i c' = length buf \<longrightarrow>
          odataBuf c = prefixSumAB 2 buf \<and> odataBuf c' = prefixSumAB 2 buf \<and>
          sumSoFar c' = sumSoFar c"
    if "exec 2 pipe_depth buf us (init 2 buf) = Some c"
      and "exec 2 pipe_depth buf us' (init 2 buf) = Some c'" for buf us us' c c'
    using output_deterministic [OF that] by blast
  from this [OF run_two_flits run_two_flits_overlapped]
  have "prefixSumAB 2 [\<lparr>element = [1, 2]\<rparr>, \<lparr>element = [3, 4]\<rparr>] =
          [\<lparr>element = [1, 3]\<rparr>, \<lparr>element = [6, 10]\<rparr>]"
    by simp
  with run_two_flits run_two_flits_overlapped show ?thesis
    by blast
qed

theorem bounded_run_completes_witness:
  "(\<forall>p. 0 < pipe_depth p)
   \<and> exec 2 pipe_depth [\<lparr>element = [1, 2]\<rparr>, \<lparr>element = [3, 4]\<rparr>]
     [Input2Pipe, PrefixSumA, PrefixSumA, PrefixSumA, PrefixSumB, PrefixSumB, PrefixSumB,
      Pipe2Output, Input2Pipe, PrefixSumA, PrefixSumA, PrefixSumA, PrefixSumB, PrefixSumB,
      PrefixSumB, Pipe2Output]
     (init 2 [\<lparr>element = [1, 2]\<rparr>, \<lparr>element = [3, 4]\<rparr>]) =
   Some \<lparr>src_i = 2, inQ = [], a_pc = A_read, sumQ = [], dataQ = [], b_pc = B_read_data,
         sumSoFar = 10, outQ = [], snk_i = 2,
         odataBuf = [\<lparr>element = [1, 3]\<rparr>, \<lparr>element = [6, 10]\<rparr>]\<rparr>
   \<and> fst (drain 2 pipe_depth [\<lparr>element = [1, 2]\<rparr>, \<lparr>element = [3, 4]\<rparr>] (8 * length [\<lparr>element = [1, 2]\<rparr>, \<lparr>element = [3, 4]\<rparr>]) (init 2 [\<lparr>element = [1, 2]\<rparr>, \<lparr>element = [3, 4]\<rparr>])) \<noteq> []
   \<and> snk_i (snd (drain 2 pipe_depth [\<lparr>element = [1, 2]\<rparr>, \<lparr>element = [3, 4]\<rparr>] (8 * length [\<lparr>element = [1, 2]\<rparr>, \<lparr>element = [3, 4]\<rparr>]) (init 2 [\<lparr>element = [1, 2]\<rparr>, \<lparr>element = [3, 4]\<rparr>]))) = 2"
proof -
  have "case drain 2 pipe_depth buf (8 * length buf) (init 2 buf) of
          (us', c') \<Rightarrow> exec 2 pipe_depth buf us' (init 2 buf) = Some c' \<and>
            snk_i c' = length buf"
    if "exec 2 pipe_depth buf us (init 2 buf) = Some c" for buf us c
    using bounded_run_completes [OF pipe_depth_pos that] by (elim conjE) assumption
  from this [OF run_two_flits]
  have d: "exec 2 pipe_depth [\<lparr>element = [1, 2]\<rparr>, \<lparr>element = [3, 4]\<rparr>]
        (fst (drain 2 pipe_depth [\<lparr>element = [1, 2]\<rparr>, \<lparr>element = [3, 4]\<rparr>]
          (8 * length [\<lparr>element = [1, 2]\<rparr>, \<lparr>element = [3, 4]\<rparr>])
          (init 2 [\<lparr>element = [1, 2]\<rparr>, \<lparr>element = [3, 4]\<rparr>])))
        (init 2 [\<lparr>element = [1, 2]\<rparr>, \<lparr>element = [3, 4]\<rparr>]) =
      Some (snd (drain 2 pipe_depth [\<lparr>element = [1, 2]\<rparr>, \<lparr>element = [3, 4]\<rparr>]
          (8 * length [\<lparr>element = [1, 2]\<rparr>, \<lparr>element = [3, 4]\<rparr>])
          (init 2 [\<lparr>element = [1, 2]\<rparr>, \<lparr>element = [3, 4]\<rparr>])))"
    and s: "snk_i (snd (drain 2 pipe_depth [\<lparr>element = [1, 2]\<rparr>, \<lparr>element = [3, 4]\<rparr>]
          (8 * length [\<lparr>element = [1, 2]\<rparr>, \<lparr>element = [3, 4]\<rparr>])
          (init 2 [\<lparr>element = [1, 2]\<rparr>, \<lparr>element = [3, 4]\<rparr>]))) = 2"
    by (simp_all add: case_prod_beta)
  have "fst (drain 2 pipe_depth [\<lparr>element = [1, 2]\<rparr>, \<lparr>element = [3, 4]\<rparr>]
          (8 * length [\<lparr>element = [1, 2]\<rparr>, \<lparr>element = [3, 4]\<rparr>])
          (init 2 [\<lparr>element = [1, 2]\<rparr>, \<lparr>element = [3, 4]\<rparr>])) \<noteq> []"
  proof
    assume "fst (drain 2 pipe_depth [\<lparr>element = [1, 2]\<rparr>, \<lparr>element = [3, 4]\<rparr>]
          (8 * length [\<lparr>element = [1, 2]\<rparr>, \<lparr>element = [3, 4]\<rparr>])
          (init 2 [\<lparr>element = [1, 2]\<rparr>, \<lparr>element = [3, 4]\<rparr>])) = []"
    with d s show False by (simp add: init_def)
  qed
  with pipe_depth_pos run_two_flits s show ?thesis
    by blast
qed

text \<open>
  C7 as the specification states it ends with no unit left blocked on a channel
  operation. In the program as configured (8 lanes, depth 4), after a run on one flit in
  which Pipe2Output has collected the output, prefixSumA and prefixSumB are both suspended
  in a read of an empty pipe.
\<close>

theorem completion_counterexample:
  "exec STRM_WIDTH pipe_depth [\<lparr>element = [1, 2, 3, 4, 5, 6, 7, 8]\<rparr>]
     [Input2Pipe, PrefixSumA, PrefixSumA, PrefixSumA, PrefixSumB, PrefixSumB, PrefixSumB,
      Pipe2Output]
     (init STRM_WIDTH [\<lparr>element = [1, 2, 3, 4, 5, 6, 7, 8]\<rparr>]) =
   Some \<lparr>src_i = 1, inQ = [], a_pc = A_read, sumQ = [], dataQ = [], b_pc = B_read_data,
         sumSoFar = 36, outQ = [], snk_i = 1,
         odataBuf = [\<lparr>element = [1, 3, 6, 10, 15, 21, 28, 36]\<rparr>]\<rparr>
   \<and> blocked STRM_WIDTH pipe_depth [\<lparr>element = [1, 2, 3, 4, 5, 6, 7, 8]\<rparr>] PrefixSumA
       \<lparr>src_i = 1, inQ = [], a_pc = A_read, sumQ = [], dataQ = [], b_pc = B_read_data,
         sumSoFar = 36, outQ = [], snk_i = 1,
         odataBuf = [\<lparr>element = [1, 3, 6, 10, 15, 21, 28, 36]\<rparr>]\<rparr>
   \<and> blocked STRM_WIDTH pipe_depth [\<lparr>element = [1, 2, 3, 4, 5, 6, 7, 8]\<rparr>] PrefixSumB
       \<lparr>src_i = 1, inQ = [], a_pc = A_read, sumQ = [], dataQ = [], b_pc = B_read_data,
         sumSoFar = 36, outQ = [], snk_i = 1,
         odataBuf = [\<lparr>element = [1, 3, 6, 10, 15, 21, 28, 36]\<rparr>]\<rparr>"
  using run_one_flit
  by (simp add: STRM_WIDTH_8 blocked_def fire_PrefixSumA_None fire_PrefixSumB_None)

text \<open>
  C10 as the specification states it has a pipeline with depth 0 rejected before anything
  is started. In the model main starts the pipeline all the same, and Input2Pipe is then
  suspended in its first write.
\<close>

theorem depth_zero_counterexample:
  "main_setup True STRM_WIDTH no_depth [\<lparr>element = [1, 2, 3, 4, 5, 6, 7, 8]\<rparr>] = Started (init STRM_WIDTH [\<lparr>element = [1, 2, 3, 4, 5, 6, 7, 8]\<rparr>])
   \<and> blocked STRM_WIDTH no_depth [\<lparr>element = [1, 2, 3, 4, 5, 6, 7, 8]\<rparr>] Input2Pipe (init STRM_WIDTH [\<lparr>element = [1, 2, 3, 4, 5, 6, 7, 8]\<rparr>])
   \<and> blocked STRM_WIDTH no_depth [\<lparr>element = [1, 2, 3, 4, 5, 6, 7, 8]\<rparr>] PrefixSumA (init STRM_WIDTH [\<lparr>element = [1, 2, 3, 4, 5, 6, 7, 8]\<rparr>])"
  by (simp add: main_setup_def blocked_def fire_Input2Pipe_None fire_PrefixSumA_None
      no_depth_def init_def)

lemma drain_output:
  assumes "\<forall>p. 0 < depth p"
  shows "odataBuf (snd (drain W depth buf (8 * length buf) (init W buf))) =
           prefixSumSimple W buf"
proof -
  obtain us c where r: "drain W depth buf (8 * length buf) (init W buf) = (us, c)"
    by (cases "drain W depth buf (8 * length buf) (init W buf)")
  have i: "inv W buf c"
    using drain_exec [OF r] by (rule reach_inv)
  have "snk_i c = length buf"
    using drain_complete [OF assms inv_init, where W = W and idataBuf = buf
        and fuel = "8 * length buf"] r
    by (simp add: work_init)
  from inv_done(8) [OF i this] r show ?thesis by simp
qed

lemma length_8: "length [a, b, c, d, e, f, g, h] = 8"
  by simp

lemma host_buffer_4: "host_buffer 4 [1, 2, 3, 4, 5, 6, 7, 8] = [\<lparr>element = [1, 2, 3, 4]\<rparr>, \<lparr>element = [5, 6, 7, 8]\<rparr>]"
  unfolding host_buffer_def length_8
  by (simp add: upt_0_8 zero_flit_def replicate_numeral list_update_numeral)

lemma host_buffer_8: "host_buffer 8 [1, 2, 3, 4, 5, 6, 7, 8] = [\<lparr>element = [1, 2, 3, 4, 5, 6, 7, 8]\<rparr>]"
  unfolding host_buffer_def length_8
  by (simp add: upt_0_8 zero_flit_def replicate_numeral list_update_numeral)

lemma simple_4: "prefixSumSimple 4 [\<lparr>element = [1, 2, 3, 4]\<rparr>, \<lparr>element = [5, 6, 7, 8]\<rparr>] = [\<lparr>element = [1, 3, 6, 10]\<rparr>, \<lparr>element = [15, 21, 28, 36]\<rparr>]"
  by (simp add: prefixSumSimple_def tick_eval upt_0_4)

lemma simple_8: "prefixSumSimple 8 [\<lparr>element = [1, 2, 3, 4, 5, 6, 7, 8]\<rparr>] = [\<lparr>element = [1, 3, 6, 10, 15, 21, 28, 36]\<rparr>]"
  by (simp add: prefixSumSimple_def simple_tick_8)

lemma host_elements_4: "host_elements 4 8 [\<lparr>element = [1, 3, 6, 10]\<rparr>, \<lparr>element = [15, 21, 28, 36]\<rparr>] = [1, 3, 6, 10, 15, 21, 28, 36]"
  by (simp add: host_elements_def upt_0_8 stream_element_def)

lemma host_elements_8: "host_elements 8 8 [\<lparr>element = [1, 3, 6, 10, 15, 21, 28, 36]\<rparr>] = [1, 3, 6, 10, 15, 21, 28, 36]"
  by (simp add: host_elements_def upt_0_8 stream_element_def)

text \<open>
  C8. With 4 lanes and the 8 input elements 1, ..., 8 (two flits), the pipeline produces
  1, 3, 6, 10, 15, 21, 28, 36: as prefixSumSimple, as prefixSumA feeding prefixSumB, and
  as the concurrent pipeline of main run back to front with the declared pipe depths.
  With the 8 lanes of the program as configured (one flit) the output is the same.
\<close>

theorem scenario_1:
  "host_elements 4 8 (prefixSumSimple 4 (host_buffer 4 [1, 2, 3, 4, 5, 6, 7, 8])) = [1, 3, 6, 10, 15, 21, 28, 36]
   \<and> host_elements 4 8 (prefixSumAB 4 (host_buffer 4 [1, 2, 3, 4, 5, 6, 7, 8])) = [1, 3, 6, 10, 15, 21, 28, 36]
   \<and> host_elements 4 8 (odataBuf (snd (drain 4 pipe_depth (host_buffer 4 [1, 2, 3, 4, 5, 6, 7, 8])
         (8 * length (host_buffer 4 [1, 2, 3, 4, 5, 6, 7, 8])) (init 4 (host_buffer 4 [1, 2, 3, 4, 5, 6, 7, 8]))))) = [1, 3, 6, 10, 15, 21, 28, 36]
   \<and> host_elements STRM_WIDTH 8
        (prefixSumAB STRM_WIDTH (host_buffer STRM_WIDTH [1, 2, 3, 4, 5, 6, 7, 8])) = [1, 3, 6, 10, 15, 21, 28, 36]"
proof -
  have ab: "prefixSumAB W buf = prefixSumSimple W buf" for W buf
    by (simp add: prefixSumAB_simple prefixSumSimple_def)
  show ?thesis
    unfolding STRM_WIDTH_8 host_buffer_4 host_buffer_8 ab drain_output [OF pipe_depth_pos]
      simple_4 simple_8 host_elements_4 host_elements_8
    by simp
qed

end
